theory Spec2Isabelle
  imports Main "HOL-Library.Sublist" "HOL-Library.AList"
begin

section \<open>Python values\<close>

text \<open>
  Texts handled by the pipeline (replies of the text-generation service, identifiers,
  file names) are Python \<open>str\<close> values. They are modelled as \<open>string\<close>, one \<open>char\<close>
  per code point, for the code points 0..255. The strings \<^emph>\<open>inside\<close> a parsed JSON
  document can hold any code point (through \<open>\uXXXX\<close> escapes), so they are lists of
  code points, each an integer.
\<close>

type_synonym ustr = "int list"

definition code :: "char \<Rightarrow> int" where
  "code c = of_char c"

definition ustr :: "string \<Rightarrow> ustr" where
  "ustr s = map code s"

text \<open>
  A Python \<open>float\<close> read from a decimal literal: \<open>Dec m e\<close> is the binary64 value nearest
  to \<open>m * 10 ^ e\<close>. The rounding itself is not modelled; the only question the pipeline
  ever asks of a float is whether it is zero.
\<close>

datatype pyfloat = Dec int int | NaN | PosInf | NegInf

datatype json =
    JNull
  | JBool bool
  | JInt int
  | JFloat pyfloat
  | JStr ustr
  | JArr "json list"
  | JObj "(ustr \<times> json) list"

section \<open>The standard library's \<open>json.loads\<close>\<close>

text \<open>
  \<open>json.loads\<close> belongs to the Python standard library, not to the repository. It is
  modelled here for replies over code points 0..255, in two passes over the text: a
  lexer for the tokens of the JSON grammar as the library's scanner accepts them
  (including \<open>NaN\<close>, \<open>Infinity\<close> and \<open>-Infinity\<close>), and a stack machine for arrays and
  objects. \<open>None\<close> stands for \<open>JSONDecodeError\<close>. The interpreter's limits (recursion
  depth, number of digits of an integer literal) are not modelled.
\<close>

datatype token =
    TLBrace | TRBrace | TLBracket | TRBracket | TColon | TComma
  | TString ustr | TInt int | TFloat pyfloat | TNull | TTrue | TFalse

definition json_ws :: "char \<Rightarrow> bool" where
  "json_ws c = (c = CHR '' '' \<or> c = CHR 0x09 \<or> c = CHR 0x0A \<or> c = CHR 0x0D)"

definition is_digit :: "char \<Rightarrow> bool" where
  "is_digit c = (48 \<le> code c \<and> code c \<le> 57)"

definition digit_val :: "char \<Rightarrow> int" where
  "digit_val c = code c - 48"

definition hex_val :: "char \<Rightarrow> int option" where
  "hex_val c =
     (if 48 \<le> code c \<and> code c \<le> 57 then Some (code c - 48)
      else if 97 \<le> code c \<and> code c \<le> 102 then Some (code c - 97 + 10)
      else if 65 \<le> code c \<and> code c \<le> 70 then Some (code c - 65 + 10)
      else None)"

text \<open>The four hexadecimal digits of a \<open>\uXXXX\<close> escape.\<close>

fun hex4 :: "string \<Rightarrow> int option" where
  "hex4 (a # b # c # d # _) =
     (case (hex_val a, hex_val b, hex_val c, hex_val d) of
        (Some x, Some y, Some z, Some w) \<Rightarrow> Some (((x * 16 + y) * 16 + z) * 16 + w)
      | _ \<Rightarrow> None)"
| "hex4 _ = None"

definition simple_escape :: "char \<Rightarrow> int option" where
  "simple_escape e =
     (if e = CHR 0x22 then Some 0x22
      else if e = CHR 0x5C then Some 0x5C
      else if e = CHR ''/'' then Some 0x2F
      else if e = CHR ''b'' then Some 0x08
      else if e = CHR ''f'' then Some 0x0C
      else if e = CHR ''n'' then Some 0x0A
      else if e = CHR ''r'' then Some 0x0D
      else if e = CHR ''t'' then Some 0x09
      else None)"

definition cons_str :: "int \<Rightarrow> (ustr \<times> string) option \<Rightarrow> (ustr \<times> string) option" where
  "cons_str x r = map_option (\<lambda>(s, rest). (x # s, rest)) r"

text \<open>
  An escape sequence, after the backslash: the code point it denotes and the number of
  characters it takes. A high surrogate escape followed by a low surrogate escape is
  one code point.
\<close>

definition scan_escape :: "string \<Rightarrow> (int \<times> nat) option" where
  "scan_escape cs =
     (case cs of
        [] \<Rightarrow> None
      | e # r \<Rightarrow>
          if e = CHR ''u'' then
            (case hex4 r of
               None \<Rightarrow> None
             | Some u \<Rightarrow>
                 if 0xD800 \<le> u \<and> u \<le> 0xDBFF \<and> prefix [CHR 0x5C, CHR ''u''] (drop 4 r) then
                   (case hex4 (drop 6 r) of
                      None \<Rightarrow> None
                    | Some u2 \<Rightarrow>
                        if 0xDC00 \<le> u2 \<and> u2 \<le> 0xDFFF
                        then Some (0x10000 + ((u - 0xD800) * 1024 + (u2 - 0xDC00)), 11)
                        else Some (u, 5))
                 else Some (u, 5))
          else map_option (\<lambda>x. (x, 1)) (simple_escape e))"

text \<open>
  The body of a string literal, after the opening quote, in strict mode: up to the
  closing quote, with no control character outside the escapes.
\<close>

fun scan_string :: "string \<Rightarrow> (ustr \<times> string) option" where
  "scan_string [] = None"
| "scan_string (c # cs) =
     (if c = CHR 0x22 then Some ([], cs)
      else if c = CHR 0x5C then
        (case scan_escape cs of
           None \<Rightarrow> None
         | Some (x, n) \<Rightarrow> cons_str x (scan_string (drop n cs)))
      else if code c < 0x20 then None
      else cons_str (code c) (scan_string cs))"

text \<open>
  Numbers follow the library's pattern
  \<^verbatim>\<open>(-?(?:0|[1-9][0-9]*))(\.[0-9]+)?([eE][-+]?[0-9]+)?\<close>: the integer part, then a
  fraction and an exponent only where they are complete. Without fraction and exponent
  the literal is an \<open>int\<close>, otherwise a \<open>float\<close>.
\<close>

definition digits_val :: "string \<Rightarrow> int" where
  "digits_val ds = foldl (\<lambda>a c. a * 10 + digit_val c) 0 ds"

definition scan_int_part :: "string \<Rightarrow> (string \<times> string) option" where
  "scan_int_part s =
     (case s of
        [] \<Rightarrow> None
      | c # cs \<Rightarrow>
          if c = CHR ''0'' then Some ([c], cs)
          else if is_digit c then Some (c # takeWhile is_digit cs, dropWhile is_digit cs)
          else None)"

definition scan_frac :: "string \<Rightarrow> string \<times> string" where
  "scan_frac s =
     (case s of
        c # cs \<Rightarrow>
          if c = CHR ''.'' \<and> takeWhile is_digit cs \<noteq> []
          then (takeWhile is_digit cs, dropWhile is_digit cs) else ([], s)
      | [] \<Rightarrow> ([], s))"

definition scan_exp :: "string \<Rightarrow> (int option) \<times> string" where
  "scan_exp s =
     (case s of
        c # cs \<Rightarrow>
          if c = CHR ''e'' \<or> c = CHR ''E'' then
            (case cs of
               d # ds \<Rightarrow>
                 if (d = CHR ''-'' \<or> d = CHR ''+'') \<and> takeWhile is_digit ds \<noteq> [] then
                   (Some ((if d = CHR ''-'' then -1 else 1) * digits_val (takeWhile is_digit ds)),
                    dropWhile is_digit ds)
                 else if takeWhile is_digit cs \<noteq> [] then
                   (Some (digits_val (takeWhile is_digit cs)), dropWhile is_digit cs)
                 else (None, s)
             | [] \<Rightarrow> (None, s))
          else (None, s)
      | [] \<Rightarrow> (None, s))"

definition scan_number :: "string \<Rightarrow> (token \<times> string) option" where
  "scan_number s =
     (let (neg, s1) = (case s of c # cs \<Rightarrow> if c = CHR ''-'' then (True, cs) else (False, s)
                               | [] \<Rightarrow> (False, s))
      in case scan_int_part s1 of
           None \<Rightarrow> None
         | Some (ip, s2) \<Rightarrow>
             (let (fp, s3) = scan_frac s2; (ex, s4) = scan_exp s3;
                  sgn = (if neg then -1 else 1 :: int)
              in if fp = [] \<and> ex = None then Some (TInt (sgn * digits_val ip), s4)
                 else Some (TFloat (Dec (sgn * digits_val (ip @ fp))
                                        ((case ex of None \<Rightarrow> 0 | Some e \<Rightarrow> e) - int (length fp))),
                            s4)))"

text \<open>
  One token at the head of a text that does not start with whitespace, in the order in
  which the scanner tries the alternatives.
\<close>

definition scan_punct :: "char \<Rightarrow> token option" where
  "scan_punct c =
     (if c = CHR ''{'' then Some TLBrace
      else if c = CHR ''['' then Some TLBracket
      else if c = CHR ''}'' then Some TRBrace
      else if c = CHR '']'' then Some TRBracket
      else if c = CHR '':'' then Some TColon
      else if c = CHR '','' then Some TComma
      else None)"

definition scan_literal :: "string \<Rightarrow> (token \<times> string) option" where
  "scan_literal s =
     (if prefix ''null'' s then Some (TNull, drop 4 s)
      else if prefix ''true'' s then Some (TTrue, drop 4 s)
      else if prefix ''false'' s then Some (TFalse, drop 5 s)
      else (case scan_number s of
              Some r \<Rightarrow> Some r
            | None \<Rightarrow>
                if prefix ''NaN'' s then Some (TFloat NaN, drop 3 s)
                else if prefix ''Infinity'' s then Some (TFloat PosInf, drop 8 s)
                else if prefix ''-Infinity'' s then Some (TFloat NegInf, drop 9 s)
                else None))"

definition scan_token :: "string \<Rightarrow> (token \<times> string) option" where
  "scan_token s =
     (case s of
        [] \<Rightarrow> None
      | c # cs \<Rightarrow>
          if c = CHR 0x22 then map_option (\<lambda>(u, r). (TString u, r)) (scan_string cs)
          else (case scan_punct c of
                  Some t \<Rightarrow> Some (t, cs)
                | None \<Rightarrow> scan_literal s))"

text \<open>Every token takes at least one character, so the lexer below terminates.\<close>

lemma scan_string_shorter: "scan_string s = Some (u, r) \<Longrightarrow> length r \<le> length s"
proof (induction s arbitrary: u r rule: scan_string.induct)
  case 1
  then show ?case by simp
next
  case (2 c cs)
  show ?case
  proof (cases "c = CHR 0x22")
    case True
    with "2.prems" show ?thesis by simp
  next
    case notq: False
    show ?thesis
    proof (cases "c = CHR 0x5C")
      case False
      with notq "2.prems" obtain u' where "scan_string cs = Some (u', r)"
        by (auto simp: cons_str_def split: if_splits)
      with "2.IH"(2) [OF notq False] "2.prems" notq False show ?thesis
        by (fastforce simp: cons_str_def split: if_splits)
    next
      case bs: True
      with "2.prems" notq obtain x n u' where
        e: "scan_escape cs = Some (x, n)" and u': "scan_string (drop n cs) = Some (u', r)"
        by (auto simp: cons_str_def split: option.splits)
      from "2.IH"(1) [OF notq bs e refl u'] show ?thesis by simp
    qed
  qed
qed

lemma scan_exp_shorter: "scan_exp s = (e, r) \<Longrightarrow> length r \<le> length s"
  by (auto simp: scan_exp_def length_dropWhile_le le_SucI
           split: list.splits if_splits)

lemma scan_frac_shorter: "scan_frac s = (f, r) \<Longrightarrow> length r \<le> length s"
  by (auto simp: scan_frac_def length_dropWhile_le le_SucI split: list.splits if_splits)

lemma scan_int_part_shorter: "scan_int_part s = Some (ip, r) \<Longrightarrow> length r < length s"
  by (auto simp: scan_int_part_def length_dropWhile_le less_Suc_eq_le
           split: list.splits if_splits)

lemma scan_number_shorter:
  assumes "scan_number s = Some (t, r)"
  shows "length r < length s"
proof -
  obtain neg s1 where ns: "(case s of c # cs \<Rightarrow> if c = CHR ''-'' then (True, cs) else (False, s)
                               | [] \<Rightarrow> (False, s)) = (neg, s1)"
    by (cases "(case s of c # cs \<Rightarrow> if c = CHR ''-'' then (True, cs) else (False, s)
                               | [] \<Rightarrow> (False, s))") auto
  then have l1: "length s1 \<le> length s"
    by (auto split: list.splits if_splits)
  from assms ns obtain ip s2 where ip: "scan_int_part s1 = Some (ip, s2)"
    by (auto simp: scan_number_def split: option.splits)
  obtain fp s3 where fp: "scan_frac s2 = (fp, s3)" by (cases "scan_frac s2") auto
  obtain ex s4 where ex: "scan_exp s3 = (ex, s4)" by (cases "scan_exp s3") auto
  from assms ns ip fp ex have "r = s4"
    by (auto simp: scan_number_def Let_def split: if_splits)
  with scan_int_part_shorter [OF ip] scan_frac_shorter [OF fp] scan_exp_shorter [OF ex] l1
  show ?thesis by simp
qed

lemma scan_literal_shorter:
  assumes "scan_literal s = Some (t, r)" and "s \<noteq> []"
  shows "length r < length s"
proof (cases "scan_number s")
  case (Some a)
  with assms scan_number_shorter [of s t r] show ?thesis
    by (auto simp: scan_literal_def split: if_splits)
next
  case None
  with assms show ?thesis
    by (auto simp: scan_literal_def split: if_splits)
qed

lemma scan_token_shorter:
  assumes "scan_token s = Some (t, r)"
  shows "length r < length s"
proof (cases s)
  case Nil
  with assms show ?thesis by (simp add: scan_token_def)
next
  case (Cons c cs)
  show ?thesis
  proof (cases "c = CHR 0x22")
    case True
    with assms Cons obtain u where "scan_string cs = Some (u, r)"
      by (auto simp: scan_token_def)
    from scan_string_shorter [OF this] Cons show ?thesis by simp
  next
    case False
    show ?thesis
    proof (cases "scan_punct c")
      case (Some a)
      with False assms Cons show ?thesis
        by (simp add: scan_token_def)
    next
      case None
      with False assms Cons have "scan_literal s = Some (t, r)"
        by (simp add: scan_token_def)
      from scan_literal_shorter [OF this] Cons show ?thesis by simp
    qed
  qed
qed

function lex :: "string \<Rightarrow> token list option" where
  "lex [] = Some []"
| "lex (c # cs) =
     (if json_ws c then lex cs
      else (case scan_token (c # cs) of
              None \<Rightarrow> None
            | Some (t, r) \<Rightarrow> map_option (Cons t) (lex r)))"
  by pat_completeness auto
termination
proof (relation "measure length")
  show "wf (measure length)" by simp
next
  fix c :: char and cs :: string
  show "(cs, c # cs) \<in> measure length" by simp
next
  fix c :: char and cs :: string and x2 :: "token \<times> string" and t :: token and r :: string
  assume "scan_token (c # cs) = Some x2" and "(t, r) = x2"
  then have "scan_token (c # cs) = Some (t, r)" by simp
  from scan_token_shorter [OF this] show "(r, c # cs) \<in> measure length" by simp
qed

text \<open>
  Arrays and objects. A frame of the stack is an array with the elements read so far,
  or an object with the members read so far and the key whose value is being read. A
  repeated key keeps its first position and takes the last value, as Python's \<open>dict\<close>
  does.
\<close>

datatype frame = InArr "json list" | InObj "(ustr \<times> json) list" ustr

fun parse_value :: "frame list \<Rightarrow> token list \<Rightarrow> json option"
  and parse_after :: "frame list \<Rightarrow> json \<Rightarrow> token list \<Rightarrow> json option" where
  "parse_value fs [] = None"
| "parse_value fs (t # r) =
     (case t of
        TString s \<Rightarrow> parse_after fs (JStr s) r
      | TInt i \<Rightarrow> parse_after fs (JInt i) r
      | TFloat f \<Rightarrow> parse_after fs (JFloat f) r
      | TNull \<Rightarrow> parse_after fs JNull r
      | TTrue \<Rightarrow> parse_after fs (JBool True) r
      | TFalse \<Rightarrow> parse_after fs (JBool False) r
      | TLBracket \<Rightarrow>
          (if r \<noteq> [] \<and> hd r = TRBracket then parse_after fs (JArr []) (tl r)
           else parse_value (InArr [] # fs) r)
      | TLBrace \<Rightarrow>
          (if r \<noteq> [] \<and> hd r = TRBrace then parse_after fs (JObj []) (tl r)
           else (case r of
                   TString k # r1 \<Rightarrow>
                     (if r1 \<noteq> [] \<and> hd r1 = TColon
                      then parse_value (InObj [] k # fs) (tl r1) else None)
                 | _ \<Rightarrow> None))
      | _ \<Rightarrow> None)"
| "parse_after [] v ts = (if ts = [] then Some v else None)"
| "parse_after (f # fs) v [] = None"
| "parse_after (f # fs) v (t # r) =
     (case f of
        InArr acc \<Rightarrow>
          (if t = TComma then parse_value (InArr (acc @ [v]) # fs) r
           else if t = TRBracket then parse_after fs (JArr (acc @ [v])) r
           else None)
      | InObj acc k \<Rightarrow>
          (if t = TComma then
             (case r of
                TString k' # r1 \<Rightarrow>
                  (if r1 \<noteq> [] \<and> hd r1 = TColon
                   then parse_value (InObj (AList.update k v acc) k' # fs) (tl r1) else None)
              | _ \<Rightarrow> None)
           else if t = TRBrace then parse_after fs (JObj (AList.update k v acc)) r
           else None))"

definition json_loads :: "string \<Rightarrow> json option" where
  "json_loads s = (case lex s of None \<Rightarrow> None | Some ts \<Rightarrow> parse_value [] ts)"

section \<open>Exceptions\<close>

text \<open>
  An exception is its class and its message. The messages are built by f-strings in the
  source; here each is a constructor holding the values the f-string interpolates, so
  a message can be inspected. All classes are subclasses of \<open>Exception\<close>, and
  \<open>JSONDecodeError\<close> and \<open>UnicodeEncodeError\<close> are subclasses of \<open>ValueError\<close>.
\<close>

datatype exn_class =
    ValueError | JSONDecodeError | UnicodeEncodeError | TypeError | OSError | Exception
  | OtherError string

datatype pytype = PyDict | PyList | PyStr | PyInt | PyFloat | PyBool | NoneType

datatype message =
    Text string
  | EmptyResponse string
  | NoJsonFound string string
  | MalformedJson string string
  | FailedToParse string string
  | MustBeDict string pytype
  | MissingKeys string "ustr list" "ustr list"
  | InvalidContentType json
  | ExpectedObject pytype
  | NotSized pytype
  | NotJoinable
  | NotSliceable pytype
  | Unhashable pytype
  | CannotEncode
  | Prefixed string message

type_synonym exn = "exn_class \<times> message"

fun type_of :: "json \<Rightarrow> pytype" where
  "type_of JNull = NoneType"
| "type_of (JBool _) = PyBool"
| "type_of (JInt _) = PyInt"
| "type_of (JFloat _) = PyFloat"
| "type_of (JStr _) = PyStr"
| "type_of (JArr _) = PyList"
| "type_of (JObj _) = PyDict"

section \<open>pipeline/utils.py\<close>

subsection \<open>String operations of Python used by the parser\<close>

text \<open>\<open>str.isspace\<close> on the code points 0..255; the pattern class \<open>\s\<close> is the same set.\<close>

definition is_space :: "char \<Rightarrow> bool" where
  "is_space c = (let n = code c in (9 \<le> n \<and> n \<le> 13) \<or> (28 \<le> n \<and> n \<le> 32) \<or> n = 133 \<or> n = 160)"

definition lstrip :: "string \<Rightarrow> string" where
  "lstrip s = dropWhile is_space s"

definition rstrip :: "string \<Rightarrow> string" where
  "rstrip s = rev (dropWhile is_space (rev s))"

definition strip :: "string \<Rightarrow> string" where
  "strip s = rstrip (lstrip s)"

definition fence :: string where
  "fence = ''```''"

definition newline :: char where
  "newline = CHR 0x0A"

text \<open>\<open>p in s\<close> for strings.\<close>

fun contains :: "string \<Rightarrow> string \<Rightarrow> bool" where
  "contains p [] = (p = [])"
| "contains p (c # cs) = (prefix p (c # cs) \<or> contains p cs)"

text \<open>\<open>s.find(c)\<close> and \<open>s.rfind(c)\<close> for one character; \<open>None\<close> is Python's \<open>-1\<close>.\<close>

fun find_char :: "char \<Rightarrow> string \<Rightarrow> nat option" where
  "find_char c [] = None"
| "find_char c (x # xs) = (if x = c then Some 0 else map_option Suc (find_char c xs))"

definition rfind_char :: "char \<Rightarrow> string \<Rightarrow> nat option" where
  "rfind_char c s = map_option (\<lambda>i. length s - 1 - i) (find_char c (rev s))"

text \<open>\<open>s.split('\n')\<close> and \<open>'\n'.join(lines)\<close>.\<close>

fun split_lines :: "string \<Rightarrow> string list" where
  "split_lines [] = [[]]"
| "split_lines (c # cs) =
     (if c = newline then [] # split_lines cs
      else (case split_lines cs of l # ls \<Rightarrow> (c # l) # ls | [] \<Rightarrow> [[c]]))"

fun join_lines :: "string list \<Rightarrow> string" where
  "join_lines [] = []"
| "join_lines [l] = l"
| "join_lines (l # ls) = l @ newline # join_lines ls"

subsection \<open>The fence pattern\<close>

text \<open>
  \<open>re.findall(r'```(?:json)?\s*\n(.*?)\n```', text, re.DOTALL)\<close>, of which the source
  uses the first element only: the group of the leftmost match. The matcher backtracks
  in the order of the pattern: the optional tag is tried present before absent, the
  whitespace run longest first, the body shortest first.

  \<open>lazy_body\<close> is \<open>(.*?)\n```\<close>: the text before the first newline followed by a fence.
\<close>

fun lazy_body :: "string \<Rightarrow> string option" where
  "lazy_body [] = None"
| "lazy_body (c # cs) =
     (if prefix (newline # fence) (c # cs) then Some []
      else map_option (Cons c) (lazy_body cs))"

text \<open>\<open>\s*\n(.*?)\n```\<close> with the whitespace run of length \<open>k\<close>, then shorter ones.\<close>

definition newline_then_body :: "nat \<Rightarrow> string \<Rightarrow> string option" where
  "newline_then_body k s =
     (case drop k s of [] \<Rightarrow> None | c # r \<Rightarrow> if c = newline then lazy_body r else None)"

fun after_spaces :: "nat \<Rightarrow> string \<Rightarrow> string option" where
  "after_spaces 0 s = newline_then_body 0 s"
| "after_spaces (Suc k) s =
     (case newline_then_body (Suc k) s of Some g \<Rightarrow> Some g | None \<Rightarrow> after_spaces k s)"

definition fence_tail :: "string \<Rightarrow> string option" where
  "fence_tail s = after_spaces (length (takeWhile is_space s)) s"

definition match_here :: "string \<Rightarrow> string option" where
  "match_here s =
     (if prefix fence s then
        (case (if prefix ''json'' (drop 3 s) then fence_tail (drop 7 s) else None) of
           Some g \<Rightarrow> Some g
         | None \<Rightarrow> fence_tail (drop 3 s))
      else None)"

fun first_match :: "string \<Rightarrow> string option" where
  "first_match [] = None"
| "first_match (c # cs) =
     (case match_here (c # cs) of Some g \<Rightarrow> Some g | None \<Rightarrow> first_match cs)"

subsection \<open>\<open>extract_json_from_response\<close>\<close>

text \<open>Strategy 2 of the source; \<open>None\<close> when it falls through to strategy 3.\<close>

definition remove_fence_lines :: "string \<Rightarrow> string" where
  "remove_fence_lines cleaned_text =
     join_lines (filter (\<lambda>line. \<not> prefix fence (strip line)) (split_lines cleaned_text))"

definition fence_strategy :: "string \<Rightarrow> json option" where
  "fence_strategy cleaned_text =
     (if contains fence cleaned_text then
        (case (case first_match cleaned_text of
                 Some m \<Rightarrow> json_loads m
               | None \<Rightarrow> None) of
           Some v \<Rightarrow> Some v
         | None \<Rightarrow> json_loads (remove_fence_lines cleaned_text))
      else None)"

text \<open>
  Strategy 3 of the source. The decoder's own diagnostic, which the last message quotes,
  is not modelled.
\<close>

definition bracket_strategy :: "string \<Rightarrow> string \<Rightarrow> string \<Rightarrow> exn + json" where
  "bracket_strategy original_text cleaned_text context =
     (let first_brace = find_char CHR ''{'' cleaned_text;
          first_bracket = find_char CHR ''['' cleaned_text
      in case (first_brace, first_bracket) of
           (None, None) \<Rightarrow> Inl (ValueError, NoJsonFound context (take 200 original_text))
         | _ \<Rightarrow>
           (let (start, end_char) =
                  (case (first_brace, first_bracket) of
                     (None, Some k) \<Rightarrow> (k, CHR '']'')
                   | (Some b, None) \<Rightarrow> (b, CHR ''}'')
                   | (Some b, Some k) \<Rightarrow> (min b k, if min b k = b then CHR ''}'' else CHR '']'')
                   | (None, None) \<Rightarrow> (0, CHR ''}''))
            in case rfind_char end_char cleaned_text of
                 None \<Rightarrow> Inl (ValueError, MalformedJson context (take 200 original_text))
               | Some e \<Rightarrow>
                   if e < start
                   then Inl (ValueError, MalformedJson context (take 200 original_text))
                   else (let json_str = take (e + 1 - start) (drop start cleaned_text)
                         in case json_loads json_str of
                              Some v \<Rightarrow> Inr v
                            | None \<Rightarrow> Inl (ValueError, FailedToParse context (take 100 json_str)))))"

definition extract_json_from_response :: "string \<Rightarrow> string \<Rightarrow> exn + json" where
  "extract_json_from_response response_text context =
     (if response_text = [] \<or> strip response_text = [] then
        Inl (ValueError, EmptyResponse context)
      else
        (let original_text = response_text; cleaned_text = strip response_text
         in case json_loads cleaned_text of
              Some v \<Rightarrow> Inr v
            | None \<Rightarrow>
                (case fence_strategy cleaned_text of
                   Some v \<Rightarrow> Inr v
                 | None \<Rightarrow> bracket_strategy original_text cleaned_text context)))"

subsection \<open>\<open>validate_dict_keys\<close>\<close>

text \<open>
  \<open>None\<close> is the normal return (the function returns nothing); \<open>Some e\<close> is the raised
  exception. \<open>required_keys\<close> is a list of strings, as at every call site.
\<close>

definition validate_dict_keys :: "json \<Rightarrow> ustr list \<Rightarrow> string \<Rightarrow> exn option" where
  "validate_dict_keys data required_keys context =
     (case data of
        JObj d \<Rightarrow>
          (let missing_keys = filter (\<lambda>key. key \<notin> set (map fst d)) required_keys
           in if missing_keys \<noteq> []
              then Some (ValueError, MissingKeys context missing_keys (map fst d))
              else None)
      | _ \<Rightarrow> Some (ValueError, MustBeDict context (type_of data)))"

section \<open>config.py\<close>

definition OUTPUT_DIR :: string where
  "OUTPUT_DIR = ''outputs''"

definition CONTENT_TYPE_DIRS :: "(ustr \<times> string) list" where
  "CONTENT_TYPE_DIRS =
     [(ustr ''match_report'', ''match_reports''),
      (ustr ''transfer_news'', ''transfer_news''),
      (ustr ''injury_update'', ''injury_updates''),
      (ustr ''opinion_piece'', ''opinion_pieces''),
      (ustr ''other'', ''other'')]"

section \<open>The state the pipeline works on\<close>

text \<open>
  What the pipeline changes outside itself: the output directories and the log. A
  directory under \<open>OUTPUT_DIR\<close> is absent (\<open>None\<close>) or lists its entries, each a path
  relative to the directory with the package written there (\<open>None\<close> for a file that was
  opened and not written completely). A log entry is the stage, the status and the input id of
  \<open>log_stage\<close>; the \<open>details\<close> are left out.
\<close>

record output_package =
  input_id :: string
  processed_at :: string
  content_type :: json
  classification :: json
  metadata :: json
  headlines :: json
  original_content :: string
  pipeline_version :: string

datatype log_entry = LogEntry string string string

record state =
  files :: "string \<rightharpoonup> (string \<times> output_package option) list"
  log :: "log_entry list"

text \<open>
  What the environment decides during one run of \<open>process\<close>: the clock readings, the
  reply of the text-generation service to each of the three requests (the text of the
  first content block, or the exception of the call), the fate of the write, and, for
  a file name with path components, the place it resolves to and the text of the path.
\<close>

datatype io_outcome = WriteOk | OpenFails message | WriteFails message

record env =
  clock_id :: string
  classify_reply :: "exn + string"
  extract_reply :: "exn + string"
  generate_reply :: "exn + string"
  clock_processed_at :: string
  clock_filename :: string
  io :: io_outcome
  path_target :: "string \<Rightarrow> string \<Rightarrow> (string \<times> string) option"
  path_text :: "string \<Rightarrow> string \<Rightarrow> string"

section \<open>pipeline/logger.py\<close>

definition log_stage :: "state \<Rightarrow> string \<Rightarrow> string \<Rightarrow> string \<Rightarrow> state" where
  "log_stage s stage status iid = s\<lparr>log := log s @ [LogEntry stage status iid]\<rparr>"

definition log_start :: "state \<Rightarrow> string \<Rightarrow> state" where
  "log_start s iid = log_stage s ''PROCESS_START'' ''SUCCESS'' iid"

definition log_complete :: "state \<Rightarrow> string \<Rightarrow> state" where
  "log_complete s iid = log_stage s ''PROCESS_COMPLETE'' ''SUCCESS'' iid"

definition log_error :: "state \<Rightarrow> string \<Rightarrow> string \<Rightarrow> state" where
  "log_error s iid stage = log_stage s stage ''FAILURE'' iid"

section \<open>Operations of Python on parsed values\<close>

text \<open>\<open>d.get(key, default)\<close> and \<open>d[key]\<close> on a value that should be a \<open>dict\<close>.\<close>

definition dict_get :: "json \<Rightarrow> ustr \<Rightarrow> json \<Rightarrow> exn + json" where
  "dict_get d key dflt =
     (case d of
        JObj kvs \<Rightarrow> (case map_of kvs key of Some v \<Rightarrow> Inr v | None \<Rightarrow> Inr dflt)
      | _ \<Rightarrow> Inl (OtherError ''AttributeError'', Text ''get''))"

definition dict_item :: "json \<Rightarrow> ustr \<Rightarrow> exn + json" where
  "dict_item d key =
     (case d of
        JObj kvs \<Rightarrow> (case map_of kvs key of
                       Some v \<Rightarrow> Inr v
                     | None \<Rightarrow> Inl (OtherError ''KeyError'', Text ''key''))
      | _ \<Rightarrow> Inl (TypeError, NotSliceable (type_of d)))"

text \<open>\<open>len(x)\<close>: only strings, lists and dictionaries have a length.\<close>

definition py_len :: "json \<Rightarrow> exn + nat" where
  "py_len x =
     (case x of
        JStr u \<Rightarrow> Inr (length u)
      | JArr xs \<Rightarrow> Inr (length xs)
      | JObj kvs \<Rightarrow> Inr (length kvs)
      | _ \<Rightarrow> Inl (TypeError, NotSized (type_of x)))"

text \<open>
  Truth value of \<open>x\<close> in a condition. A float from a decimal literal is zero when the
  literal is, or when it rounds to zero in binary64 (magnitude at most \<open>2 ^ -1075\<close>).
\<close>

definition float_nonzero :: "pyfloat \<Rightarrow> bool" where
  "float_nonzero f =
     (case f of
        Dec m e \<Rightarrow> m \<noteq> 0 \<and> (0 \<le> e \<or> 10 ^ nat (- e) < \<bar>m\<bar> * 2 ^ 1075)
      | _ \<Rightarrow> True)"

definition py_truthy :: "json \<Rightarrow> bool" where
  "py_truthy x =
     (case x of
        JNull \<Rightarrow> False
      | JBool b \<Rightarrow> b
      | JInt i \<Rightarrow> i \<noteq> 0
      | JFloat f \<Rightarrow> float_nonzero f
      | JStr u \<Rightarrow> u \<noteq> []
      | JArr xs \<Rightarrow> xs \<noteq> []
      | JObj kvs \<Rightarrow> kvs \<noteq> [])"

definition is_str :: "json \<Rightarrow> bool" where
  "is_str x = (case x of JStr _ \<Rightarrow> True | _ \<Rightarrow> False)"

text \<open>
  \<open>', '.join(x)\<close>, of which only the success matters (the result is printed or put in a
  prompt): a string joins its characters, a dictionary its keys, a list its elements
  if all are strings.
\<close>

definition py_join :: "json \<Rightarrow> exn option" where
  "py_join x =
     (case x of
        JStr _ \<Rightarrow> None
      | JObj _ \<Rightarrow> None
      | JArr xs \<Rightarrow> if list_all is_str xs then None else Some (TypeError, NotJoinable)
      | _ \<Rightarrow> Some (TypeError, NotJoinable))"

text \<open>\<open>x[:3]\<close>.\<close>

definition py_first3 :: "json \<Rightarrow> exn + json" where
  "py_first3 x =
     (case x of
        JStr u \<Rightarrow> Inr (JStr (take 3 u))
      | JArr xs \<Rightarrow> Inr (JArr (take 3 xs))
      | _ \<Rightarrow> Inl (TypeError, NotSliceable (type_of x)))"

text \<open>
  \<open>print(text)\<close> on a console encoded in UTF-8 raises \<open>UnicodeEncodeError\<close> when the text
  holds a surrogate code point, which a \<open>\uXXXX\<close> escape can put into a parsed string.
  In an f-string a string is interpolated as it is; any other value is interpolated by
  its \<open>repr\<close>, in which the strings are escaped.
\<close>

definition has_surrogate :: "ustr \<Rightarrow> bool" where
  "has_surrogate u = list_ex (\<lambda>c. 0xD800 \<le> c \<and> c \<le> 0xDFFF) u"

definition str_has_surrogate :: "json \<Rightarrow> bool" where
  "str_has_surrogate x = (case x of JStr u \<Rightarrow> has_surrogate u | _ \<Rightarrow> False)"

definition print_value :: "json \<Rightarrow> exn option" where
  "print_value x =
     (if str_has_surrogate x then Some (UnicodeEncodeError, CannotEncode) else None)"

text \<open>The text of \<open>', '.join(x)\<close>, for a value that can be joined, holds a surrogate.\<close>

definition join_has_surrogate :: "json \<Rightarrow> bool" where
  "join_has_surrogate x =
     (case x of
        JStr u \<Rightarrow> has_surrogate u
      | JArr xs \<Rightarrow> list_ex str_has_surrogate xs
      | JObj kvs \<Rightarrow> list_ex (\<lambda>kv. has_surrogate (fst kv)) kvs
      | _ \<Rightarrow> False)"

definition print_join :: "json \<Rightarrow> exn option" where
  "print_join x =
     (case py_join x of
        Some e \<Rightarrow> Some e
      | None \<Rightarrow> if join_has_surrogate x then Some (UnicodeEncodeError, CannotEncode) else None)"

text \<open>
  The text of an exception holds a surrogate: of all messages only the one for an
  invalid content type interpolates a parsed value as it is.
\<close>

fun message_has_surrogate :: "message \<Rightarrow> bool" where
  "message_has_surrogate (InvalidContentType ct) = str_has_surrogate ct"
| "message_has_surrogate (Prefixed _ m) = message_has_surrogate m"
| "message_has_surrogate _ = False"

text \<open>
  \<open>json.dump(x, f, ensure_ascii=False)\<close> into a file encoded in UTF-8 writes every string
  and every key as it is, and fails on a surrogate anywhere in the value.
\<close>

fun json_has_surrogate :: "json \<Rightarrow> bool" where
  "json_has_surrogate (JStr u) = has_surrogate u"
| "json_has_surrogate (JArr xs) = list_ex json_has_surrogate xs"
| "json_has_surrogate (JObj kvs) =
     list_ex (\<lambda>kv. has_surrogate (fst kv) \<or> json_has_surrogate (snd kv)) kvs"
| "json_has_surrogate _ = False"

section \<open>pipeline/classifier.py\<close>

definition valid_types :: "ustr list" where
  "valid_types =
     [ustr ''match_report'', ustr ''transfer_news'', ustr ''injury_update'',
      ustr ''opinion_piece'', ustr ''other'']"

text \<open>
  The body of the \<open>try\<close> block of \<open>classify\<close>: the call, the extraction, the validation
  of the keys, the validation of the content type.
\<close>

definition classify_result :: "exn + string \<Rightarrow> string \<Rightarrow> exn + json" where
  "classify_result reply iid =
     (case reply of
        Inl e \<Rightarrow> Inl e
      | Inr response_text \<Rightarrow>
          (case extract_json_from_response response_text (''classification for '' @ iid) of
             Inl e \<Rightarrow> Inl e
           | Inr result \<Rightarrow>
               (case validate_dict_keys result
                       [ustr ''content_type'', ustr ''confidence'', ustr ''reasoning'']
                       ''Classification result'' of
                  Some e \<Rightarrow> Inl e
                | None \<Rightarrow>
                    (case dict_item result (ustr ''content_type'') of
                       Inl e \<Rightarrow> Inl e
                     | Inr ct \<Rightarrow>
                         if ct \<notin> set (map JStr valid_types)
                         then Inl (ValueError, InvalidContentType ct)
                         else Inr result))))"

text \<open>
  The two handlers of \<open>classify\<close> log the failure and raise a plain \<open>Exception\<close> whose
  message is a prefix and the message of the caught exception.
\<close>

definition classify :: "env \<Rightarrow> state \<Rightarrow> string \<Rightarrow> string \<Rightarrow> (exn + json) \<times> state" where
  "classify w s content iid =
     (case classify_result (classify_reply w) iid of
        Inr result \<Rightarrow> (Inr result, log_stage s ''CLASSIFY'' ''SUCCESS'' iid)
      | Inl e \<Rightarrow>
          (Inl (Exception,
                Prefixed (if fst e = JSONDecodeError
                          then ''Failed to parse classification response as JSON: ''
                          else ''Classification failed: '') (snd e)),
           log_error s iid ''CLASSIFY''))"

section \<open>pipeline/extractor.py\<close>

text \<open>
  The body of the \<open>try\<close> block of \<open>extract\<close>. The lengths of \<open>teams\<close> and \<open>players\<close> are
  computed for the log entry, which raises \<open>TypeError\<close> for a value without a length.
\<close>

definition extract_result :: "exn + string \<Rightarrow> string \<Rightarrow> exn + json" where
  "extract_result reply iid =
     (case reply of
        Inl e \<Rightarrow> Inl e
      | Inr response_text \<Rightarrow>
          (case extract_json_from_response response_text (''metadata extraction for '' @ iid) of
             Inl e \<Rightarrow> Inl e
           | Inr md \<Rightarrow>
               (case md of
                  JObj kvs \<Rightarrow>
                    (case py_len (case map_of kvs (ustr ''teams'') of Some v \<Rightarrow> v | None \<Rightarrow> JArr []) of
                       Inl e \<Rightarrow> Inl e
                     | Inr _ \<Rightarrow>
                         (case py_len (case map_of kvs (ustr ''players'') of Some v \<Rightarrow> v | None \<Rightarrow> JArr []) of
                            Inl e \<Rightarrow> Inl e
                          | Inr _ \<Rightarrow> Inr md))
                | _ \<Rightarrow> Inl (ValueError, ExpectedObject (type_of md)))))"

text \<open>\<open>MetadataExtractor.extract\<close> (the name \<open>extract\<close> alone is a keyword of Isabelle).\<close>

definition extractor_extract :: "env \<Rightarrow> state \<Rightarrow> string \<Rightarrow> json \<Rightarrow> string \<Rightarrow> (exn + json) \<times> state" where
  "extractor_extract w s content ct iid =
     (case extract_result (extract_reply w) iid of
        Inr md \<Rightarrow> (Inr md, log_stage s ''EXTRACT'' ''SUCCESS'' iid)
      | Inl e \<Rightarrow>
          (Inl (Exception,
                Prefixed (if fst e = JSONDecodeError
                          then ''Failed to parse metadata extraction response: ''
                          else ''Metadata extraction failed: '') (snd e)),
           log_error s iid ''EXTRACT''))"

section \<open>pipeline/generator.py\<close>

text \<open>
  \<open>_build_generation_prompt\<close> joins the teams and the first three players when they are
  truthy; \<open>Some e\<close> is the exception this raises, \<open>None\<close> a prompt built.
\<close>

definition build_generation_prompt :: "json \<Rightarrow> exn option" where
  "build_generation_prompt md =
     (case dict_get md (ustr ''teams'') (JArr []) of
        Inl e \<Rightarrow> Some e
      | Inr teams \<Rightarrow>
          (case dict_get md (ustr ''players'') (JArr []) of
             Inl e \<Rightarrow> Some e
           | Inr players \<Rightarrow>
               (case (if py_truthy teams then py_join teams else None) of
                  Some e \<Rightarrow> Some e
                | None \<Rightarrow>
                    if py_truthy players then
                      (case py_first3 players of Inl e \<Rightarrow> Some e | Inr p3 \<Rightarrow> py_join p3)
                    else None)))"

definition generate_result :: "exn + string \<Rightarrow> string \<Rightarrow> exn + json" where
  "generate_result reply iid =
     (case reply of
        Inl e \<Rightarrow> Inl e
      | Inr response_text \<Rightarrow>
          (case extract_json_from_response response_text (''headline generation for '' @ iid) of
             Inl e \<Rightarrow> Inl e
           | Inr hl \<Rightarrow>
               (case validate_dict_keys hl
                       [ustr ''neutral'', ustr ''fan_oriented'', ustr ''casual_viewer'']
                       ''Headline generation result'' of
                  Some e \<Rightarrow> Inl e
                | None \<Rightarrow> Inr hl)))"

text \<open>The prompt is built before the \<open>try\<close> block: its exception is neither logged nor wrapped.\<close>

definition generate :: "env \<Rightarrow> state \<Rightarrow> string \<Rightarrow> json \<Rightarrow> json \<Rightarrow> string \<Rightarrow> (exn + json) \<times> state" where
  "generate w s content md ct iid =
     (case build_generation_prompt md of
        Some e \<Rightarrow> (Inl e, s)
      | None \<Rightarrow>
          (case generate_result (generate_reply w) iid of
             Inr hl \<Rightarrow> (Inr hl, log_stage s ''GENERATE'' ''SUCCESS'' iid)
           | Inl e \<Rightarrow>
               (Inl (Exception,
                     Prefixed (if fst e = JSONDecodeError
                               then ''Failed to parse headline generation response: ''
                               else ''Headline generation failed: '') (snd e)),
                log_error s iid ''GENERATE'')))"

section \<open>pipeline/router.py\<close>

text \<open>\<open>ContentRouter.__init__\<close>: every bucket directory that is absent is created empty.\<close>

definition router_init :: "state \<Rightarrow> state" where
  "router_init s =
     s\<lparr>files := fold (\<lambda>dir_name f. if f dir_name = None then f(dir_name \<mapsto> []) else f)
                     (map snd CONTENT_TYPE_DIRS) (files s)\<rparr>"

text \<open>
  \<open>self.content_type_dirs.get(content_type, "other")\<close>: the keys of the table are
  strings, a list or a dictionary cannot be hashed.
\<close>

definition lookup_dir :: "json \<Rightarrow> exn + string" where
  "lookup_dir ct =
     (case ct of
        JStr k \<Rightarrow> Inr (case map_of CONTENT_TYPE_DIRS k of Some d \<Rightarrow> d | None \<Rightarrow> ''other'')
      | JArr _ \<Rightarrow> Inl (TypeError, Unhashable PyList)
      | JObj _ \<Rightarrow> Inl (TypeError, Unhashable PyDict)
      | _ \<Rightarrow> Inr ''other'')"

text \<open>
  \<open>open(file_path, 'w')\<close> followed by \<open>json.dump\<close>. A file name without path separator
  names an entry of the bucket directory. A file name with path components is resolved
  by the operating system, which is left to the environment: \<open>path_target\<close> gives the
  directory and the entry it names among the directories of the state, or \<open>None\<close> when
  it leads elsewhere. Opening fails when the directory is absent or the environment
  says so; opening for writing replaces a file of the same name; the dump fails, with
  the file already opened, on a surrogate in the package.
\<close>

definition package_has_surrogate :: "output_package \<Rightarrow> bool" where
  "package_has_surrogate pkg \<longleftrightarrow>
     json_has_surrogate (content_type pkg) \<or> json_has_surrogate (classification pkg)
     \<or> json_has_surrogate (metadata pkg) \<or> json_has_surrogate (headlines pkg)"

definition write_entry ::
  "state \<Rightarrow> string \<Rightarrow> string \<Rightarrow> output_package \<Rightarrow> io_outcome \<Rightarrow> exn option \<times> state" where
  "write_entry s dir_name filename pkg outcome =
     (case files s dir_name of
        None \<Rightarrow> (Some (OSError, Text ''No such file or directory''), s)
      | Some entries \<Rightarrow>
          (case outcome of
             OpenFails m \<Rightarrow> (Some (OSError, m), s)
           | WriteFails m \<Rightarrow>
               (Some (if package_has_surrogate pkg then (UnicodeEncodeError, CannotEncode)
                      else (OSError, m)),
                s\<lparr>files := (files s)(dir_name \<mapsto> AList.update filename None entries)\<rparr>)
           | WriteOk \<Rightarrow>
               if package_has_surrogate pkg then
                 (Some (UnicodeEncodeError, CannotEncode),
                  s\<lparr>files := (files s)(dir_name \<mapsto> AList.update filename None entries)\<rparr>)
               else
                 (None,
                  s\<lparr>files := (files s)(dir_name \<mapsto> AList.update filename (Some pkg) entries)\<rparr>)))"

definition write_file ::
  "env \<Rightarrow> state \<Rightarrow> string \<Rightarrow> string \<Rightarrow> output_package \<Rightarrow> exn option \<times> state" where
  "write_file w s dir_name filename pkg =
     (if CHR ''/'' \<notin> set filename then write_entry s dir_name filename pkg (io w)
      else
        (case path_target w dir_name filename of
           Some (d, n) \<Rightarrow> write_entry s d n pkg (io w)
         | None \<Rightarrow>
             (case io w of
                OpenFails m \<Rightarrow> (Some (OSError, m), s)
              | WriteFails m \<Rightarrow>
                  (Some (if package_has_surrogate pkg then (UnicodeEncodeError, CannotEncode)
                         else (OSError, m)), s)
              | WriteOk \<Rightarrow>
                  (if package_has_surrogate pkg then Some (UnicodeEncodeError, CannotEncode)
                   else None, s))))"

definition route ::
  "env \<Rightarrow> state \<Rightarrow> string \<Rightarrow> json \<Rightarrow> string \<Rightarrow> json \<Rightarrow> json \<Rightarrow> json \<Rightarrow> (exn + string) \<times> state" where
  "route w s iid ct content cls md hl =
     (case (case lookup_dir ct of
              Inl e \<Rightarrow> (Inl e, s)
            | Inr dir_name \<Rightarrow>
                (let pkg = \<lparr>input_id = iid, processed_at = clock_processed_at w,
                            content_type = ct, classification = cls, metadata = md,
                            headlines = hl, original_content = content,
                            pipeline_version = ''1.0''\<rparr>;
                     filename = iid @ ''_'' @ clock_filename w @ ''.json''
                 in case write_file w s dir_name filename pkg of
                      (Some e, s') \<Rightarrow> (Inl e, s')
                    | (None, s') \<Rightarrow>
                        (Inr (if CHR ''/'' \<notin> set filename
                              then OUTPUT_DIR @ ''/'' @ dir_name @ ''/'' @ filename
                              else path_text w dir_name filename), s'))) of
        (Inr file_path, s') \<Rightarrow> (Inr file_path, log_stage s' ''ROUTE'' ''SUCCESS'' iid)
      | (Inl e, s') \<Rightarrow>
          (Inl (Exception, Prefixed ''Routing failed: '' (snd e)), log_error s' iid ''ROUTE''))"

text \<open>
  \<open>dir_path.glob("*.json")\<close>: the entries directly in the directory whose name ends in
  \<open>.json\<close>; an absent directory has none.
\<close>

definition is_json_name :: "string \<Rightarrow> bool" where
  "is_json_name n = (suffix ''.json'' n \<and> CHR ''/'' \<notin> set n)"

definition glob_json :: "state \<Rightarrow> string \<Rightarrow> string list" where
  "glob_json s dir_name =
     filter is_json_name (map fst (case files s dir_name of None \<Rightarrow> [] | Some entries \<Rightarrow> entries))"

definition get_routing_stats :: "state \<Rightarrow> (ustr \<times> nat) list" where
  "get_routing_stats s =
     map (\<lambda>(ct, dir_name). (ct, length (glob_json s dir_name))) CONTENT_TYPE_DIRS"

text \<open>
  Every path through \<open>route\<close> logs one entry of stage \<open>ROUTE\<close>, and nothing else logs
  under that stage: these entries are the trace of the calls of \<open>route\<close>.
\<close>

definition is_route_entry :: "log_entry \<Rightarrow> bool" where
  "is_route_entry e = (case e of LogEntry stage _ _ \<Rightarrow> stage = ''ROUTE'')"

definition route_entries :: "state \<Rightarrow> log_entry list" where
  "route_entries s = filter is_route_entry (log s)"

section \<open>main.py\<close>

text \<open>
  The result of \<open>process\<close> is a dictionary with the key \<open>status\<close>: the eight keys of a
  success, or the id and the error text of a failure.
\<close>

datatype pipeline_result =
    Success string json json json string
  | Failed string message

fun status :: "pipeline_result \<Rightarrow> string" where
  "status (Success _ _ _ _ _) = ''success''"
| "status (Failed _ _) = ''failed''"


text \<open>
  The console output of \<open>process\<close> is not kept, but its \<open>print\<close> calls can raise: in the
  subscripts of the classification and of the headlines, in the joins of the teams and
  of the first three players, and in printing a string that holds a surrogate. \<open>Some e\<close>
  is the exception raised, \<open>None\<close> the normal return.
\<close>

definition print_classification :: "json \<Rightarrow> json \<Rightarrow> exn option" where
  "print_classification ct cls =
     (case print_value ct of
        Some e \<Rightarrow> Some e
      | None \<Rightarrow>
          (case dict_item cls (ustr ''confidence'') of
             Inl e \<Rightarrow> Some e
           | Inr confidence \<Rightarrow>
               (case print_value confidence of
                  Some e \<Rightarrow> Some e
                | None \<Rightarrow>
                    (case dict_item cls (ustr ''reasoning'') of
                       Inl e \<Rightarrow> Some e
                     | Inr reasoning \<Rightarrow> print_value reasoning))))"

definition print_metadata :: "json \<Rightarrow> exn option" where
  "print_metadata md =
     (case dict_get md (ustr ''teams'') (JArr []) of
        Inl e \<Rightarrow> Some e
      | Inr teams \<Rightarrow>
          (case print_join teams of
             Some e \<Rightarrow> Some e
           | None \<Rightarrow>
               (case dict_get md (ustr ''players'') (JArr []) of
                  Inl e \<Rightarrow> Some e
                | Inr players \<Rightarrow>
                    (case (case py_first3 players of Inl e \<Rightarrow> Some e | Inr p3 \<Rightarrow> print_join p3) of
                       Some e \<Rightarrow> Some e
                     | None \<Rightarrow>
                         (case dict_get md (ustr ''competition'') (JStr (ustr ''N/A'')) of
                            Inl e \<Rightarrow> Some e
                          | Inr competition \<Rightarrow>
                              (case print_value competition of
                                 Some e \<Rightarrow> Some e
                               | None \<Rightarrow>
                                   (case dict_get md (ustr ''sentiment'') (JStr (ustr ''N/A'')) of
                                      Inl e \<Rightarrow> Some e
                                    | Inr sentiment \<Rightarrow> print_value sentiment)))))))"

definition print_headlines :: "json \<Rightarrow> exn option" where
  "print_headlines hl =
     (case dict_item hl (ustr ''neutral'') of
        Inl e \<Rightarrow> Some e
      | Inr neutral \<Rightarrow>
          (case print_value neutral of
             Some e \<Rightarrow> Some e
           | None \<Rightarrow>
               (case dict_item hl (ustr ''fan_oriented'') of
                  Inl e \<Rightarrow> Some e
                | Inr fan_oriented \<Rightarrow>
                    (case print_value fan_oriented of
                       Some e \<Rightarrow> Some e
                     | None \<Rightarrow>
                         (case dict_item hl (ustr ''casual_viewer'') of
                            Inl e \<Rightarrow> Some e
                          | Inr casual_viewer \<Rightarrow> print_value casual_viewer)))))"

text \<open>
  The \<open>try\<close> block of \<open>process\<close>, stage by stage: \<open>Inl e\<close> is an exception raised inside
  the block, with the state at that moment, \<open>Inr r\<close> the dictionary returned at its end.
  Stage 4 and the return:
\<close>

definition stage_route ::
  "env \<Rightarrow> state \<Rightarrow> string \<Rightarrow> string \<Rightarrow> json \<Rightarrow> json \<Rightarrow> json \<Rightarrow> json \<Rightarrow> (exn + pipeline_result) \<times> state" where
  "stage_route w s content iid cls ct md hl =
     (case route w s iid ct content cls md hl of
        (Inl e, s') \<Rightarrow> (Inl e, s')
      | (Inr output_path, s') \<Rightarrow> (Inr (Success iid cls md hl output_path), log_complete s' iid))"

text \<open>Stage 3, then stage 4.\<close>

definition stage_generate ::
  "env \<Rightarrow> state \<Rightarrow> string \<Rightarrow> string \<Rightarrow> json \<Rightarrow> json \<Rightarrow> json \<Rightarrow> (exn + pipeline_result) \<times> state" where
  "stage_generate w s content iid cls ct md =
     (case generate w s content md ct iid of
        (Inl e, s') \<Rightarrow> (Inl e, s')
      | (Inr hl, s') \<Rightarrow>
          (case print_headlines hl of
             Some e \<Rightarrow> (Inl e, s')
           | None \<Rightarrow> stage_route w s' content iid cls ct md hl))"

text \<open>Stage 2, then stage 3.\<close>

definition stage_extract ::
  "env \<Rightarrow> state \<Rightarrow> string \<Rightarrow> string \<Rightarrow> json \<Rightarrow> json \<Rightarrow> (exn + pipeline_result) \<times> state" where
  "stage_extract w s content iid cls ct =
     (case extractor_extract w s content ct iid of
        (Inl e, s') \<Rightarrow> (Inl e, s')
      | (Inr md, s') \<Rightarrow>
          (case print_metadata md of
             Some e \<Rightarrow> (Inl e, s')
           | None \<Rightarrow> stage_generate w s' content iid cls ct md))"

text \<open>Stage 1, then stage 2.\<close>

definition stage_classify ::
  "env \<Rightarrow> state \<Rightarrow> string \<Rightarrow> string \<Rightarrow> (exn + pipeline_result) \<times> state" where
  "stage_classify w s content iid =
     (case classify w s content iid of
        (Inl e, s') \<Rightarrow> (Inl e, s')
      | (Inr cls, s') \<Rightarrow>
          (case dict_item cls (ustr ''content_type'') of
             Inl e \<Rightarrow> (Inl e, s')
           | Inr ct \<Rightarrow>
               (case print_classification ct cls of
                  Some e \<Rightarrow> (Inl e, s')
                | None \<Rightarrow> stage_extract w s' content iid cls ct)))"

text \<open>
  The \<open>except\<close> block of \<open>process\<close> prints the text of the exception and returns the
  failed result. The \<open>print\<close> is not guarded: when the text holds a surrogate, the
  \<open>UnicodeEncodeError\<close> leaves \<open>process\<close> and nothing is returned.
\<close>

definition handle_failure :: "string \<Rightarrow> exn \<Rightarrow> exn + pipeline_result" where
  "handle_failure iid e =
     (if message_has_surrogate (snd e) then Inl (UnicodeEncodeError, CannotEncode)
      else Inr (Failed iid (snd e)))"

text \<open>
  \<open>ContentPipeline.process\<close>. An absent or empty \<open>input_id\<close> is replaced by one made
  from the clock. \<open>Inr r\<close> is the dictionary returned, \<open>Inl e\<close> an exception that leaves
  \<open>process\<close>.
\<close>

definition effective_input_id :: "env \<Rightarrow> string option \<Rightarrow> string" where
  "effective_input_id w input_id_arg =
     (case input_id_arg of
        None \<Rightarrow> ''content_'' @ clock_id w
      | Some i \<Rightarrow> if i = [] then ''content_'' @ clock_id w else i)"

definition process ::
  "env \<Rightarrow> state \<Rightarrow> string \<Rightarrow> string option \<Rightarrow> string option \<Rightarrow> (exn + pipeline_result) \<times> state" where
  "process w s content input_id_arg source =
     (let iid = effective_input_id w input_id_arg;
          s1 = log_start s iid
      in case stage_classify w s1 content iid of
           (Inr r, s') \<Rightarrow> (Inr r, s')
         | (Inl e, s') \<Rightarrow> (handle_failure iid e, s'))"

text \<open>
  \<open>process_batch\<close>. An item is a dictionary with the keys \<open>content\<close>, \<open>input_id\<close> and
  \<open>source\<close>, the last two optional. The environment of the \<open>i\<close>-th item is \<open>world i\<close>.
  The loop over the items has no \<open>try\<close>: an exception that leaves \<open>process\<close> leaves
  \<open>process_batch\<close> too. Otherwise the function returns the list of results; the totals
  and the routing statistics (the buckets with a count above zero) are printed.
\<close>

record item =
  item_content :: string
  item_input_id :: "string option"
  item_source :: "string option"

fun process_items ::
  "(nat \<Rightarrow> env) \<Rightarrow> nat \<Rightarrow> state \<Rightarrow> item list \<Rightarrow> (exn + pipeline_result list) \<times> state" where
  "process_items world i s [] = (Inr [], s)"
| "process_items world i s (it # items) =
     (case process (world i) s (item_content it) (item_input_id it) (item_source it) of
        (Inl e, s') \<Rightarrow> (Inl e, s')
      | (Inr result, s') \<Rightarrow>
          (case process_items world (Suc i) s' items of
             (Inl e, s'') \<Rightarrow> (Inl e, s'')
           | (Inr results, s'') \<Rightarrow> (Inr (result # results), s'')))"

record batch_summary =
  total :: nat
  successful :: nat
  failed :: nat
  routing :: "(ustr \<times> nat) list"

record batch_run =
  returned :: "pipeline_result list"
  printed :: batch_summary

definition process_batch :: "(nat \<Rightarrow> env) \<Rightarrow> state \<Rightarrow> item list \<Rightarrow> (exn + batch_run) \<times> state" where
  "process_batch world s contents =
     (case process_items world 0 s contents of
        (Inl e, s') \<Rightarrow> (Inl e, s')
      | (Inr results, s') \<Rightarrow>
          (let n_successful = length (filter (\<lambda>r. status r = ''success'') results);
               n_failed = length results - n_successful;
               routing_stats = get_routing_stats s'
           in (Inr \<lparr>returned = results,
                     printed = \<lparr>total = length results, successful = n_successful,
                                 failed = n_failed,
                                 routing = filter (\<lambda>(ct, n). n > 0) routing_stats\<rparr>\<rparr>,
               s')))"

section \<open>Sample inputs\<close>

text \<open>
  A run in which the service answers the three requests with well-formed JSON, on
  freshly created output directories; variations of it are used below to evaluate the
  pipeline on concrete inputs.
\<close>

definition sample_env :: env where
  "sample_env =
     \<lparr>clock_id = ''20250101_120000_000000'',
      classify_reply =
        Inr ''{\"content_type\": \"match_report\", \"confidence\": 0.95, \"reasoning\": \"score\"}'',
      extract_reply = Inr ''{\"teams\": [\"Team A\", \"Team B\"], \"players\": []}'',
      generate_reply =
        Inr ''{\"neutral\": \"n\", \"fan_oriented\": \"f\", \"casual_viewer\": \"c\"}'',
      clock_processed_at = ''2025-01-01T12:00:00'',
      clock_filename = ''20250101_120000'',
      io = WriteOk,
      path_target = (\<lambda>dir_name filename. None),
      path_text = (\<lambda>dir_name filename. OUTPUT_DIR @ ''/'' @ dir_name @ ''/'' @ filename)\<rparr>"

definition empty_state :: state where
  "empty_state = router_init \<lparr>files = Map.empty, log = []\<rparr>"

text \<open>
  A reply to the classification request whose content type is a string of one lone
  surrogate, written as an escape.
\<close>

definition surrogate_reply :: string where
  "surrogate_reply =
     ''{\"content_type\": \"'' @ [CHR 0x5C] @ ''ud83d\", \"confidence\": 0.9, \"reasoning\": \"r\"}''"

text \<open>The bucket a content type is counted under: its own if the table has it, else \<open>other\<close>.\<close>

definition bucket_type :: "json \<Rightarrow> ustr" where
  "bucket_type ct =
     (case ct of
        JStr k \<Rightarrow> if k \<in> set (map fst CONTENT_TYPE_DIRS) then k else ustr ''other''
      | _ \<Rightarrow> ustr ''other'')"

text \<open>
  The backtick and the double quote. A text is \<open>safe\<close> when each of its backticks has a
  double quote before it and one after it on its own line, as inside a string of a JSON
  text, which cannot hold a newline.
\<close>

definition tick :: char where
  "tick = CHR 0x60"

definition quote :: char where
  "quote = CHR 0x22"

definition same_line :: "string \<Rightarrow> string" where
  "same_line s = takeWhile (\<lambda>c. c \<noteq> newline) s"

definition enclosed :: "string \<Rightarrow> string \<Rightarrow> bool" where
  "enclosed a b \<longleftrightarrow> quote \<in> set (same_line (rev a)) \<and> quote \<in> set (same_line b)"

definition safe :: "string \<Rightarrow> bool" where
  "safe p \<longleftrightarrow> (\<forall>a b. p = a @ tick # b \<longrightarrow> enclosed a b)"

text \<open>The characters of a number.\<close>

definition numchar :: "char \<Rightarrow> bool" where
  "numchar c \<longleftrightarrow> is_digit c \<or> c \<in> {CHR ''.'', CHR ''e'', CHR ''E'', CHR ''+'', CHR ''-''}"

text \<open>
  Two states with the same output directories and the same trace of calls of \<open>route\<close>.
\<close>

definition untouched :: "state \<Rightarrow> state \<Rightarrow> bool" where
  "untouched s s' \<longleftrightarrow> files s' = files s \<and> route_entries s' = route_entries s"

text \<open>A part of the \<open>try\<close> block ends in an exception and has not called \<open>route\<close>.\<close>

definition raises_unrouted :: "state \<Rightarrow> (exn + pipeline_result) \<times> state \<Rightarrow> bool" where
  "raises_unrouted s out \<longleftrightarrow> (\<exists>e. fst out = Inl e) \<and> untouched s (snd out)"

section \<open>Properties of the response parser and the validator\<close>

lemma json_loads_empty: "json_loads [] = None"
  by (simp add: json_loads_def)

lemma find_char_None: "find_char c s = None \<longleftrightarrow> c \<notin> set s"
  by (induction s) auto

lemma set_strip: "set (strip s) \<subseteq> set s"
proof -
  have "set (rstrip u) \<subseteq> set u" for u
    using set_dropWhileD [of _ is_space "rev u"] by (auto simp: rstrip_def)
  moreover have "set (lstrip s) \<subseteq> set s"
    using set_dropWhileD [of _ is_space s] by (auto simp: lstrip_def)
  ultimately show ?thesis unfolding strip_def by blast
qed

lemma strip_Nil: "strip [] = []"
  by (simp add: strip_def lstrip_def rstrip_def)

text \<open>
  Claim C3. For every input text whose trimmed form is valid JSON,
  \<open>extract_json_from_response\<close> succeeds and returns the value that \<open>json.loads\<close> gives
  for the trimmed text.
\<close>

theorem extract_direct_parse:
  assumes "json_loads (strip response_text) = Some v"
  shows "extract_json_from_response response_text context = Inr v"
proof -
  from assms have "strip response_text \<noteq> []"
    by (auto simp: json_loads_empty)
  moreover from this have "response_text \<noteq> []"
    by (auto simp: strip_Nil)
  ultimately show ?thesis
    using assms by (simp add: extract_json_from_response_def)
qed

theorem extract_direct_parse_witness:
  "json_loads (strip ''  {\"a\": 1}  '') = Some (JObj [(ustr ''a'', JInt 1)])
   \<and> extract_json_from_response ''  {\"a\": 1}  '' ''API response''
       = Inr (JObj [(ustr ''a'', JInt 1)])"
proof -
  have h: "json_loads (strip ''  {\"a\": 1}  '') = Some (JObj [(ustr ''a'', JInt 1)])"
    by code_simp
  from h extract_direct_parse [OF h] show ?thesis by simp
qed

text \<open>
  Claim C5, as stated, fails: the text \<open>42\<close> holds neither \<open>{\<close> nor \<open>[\<close>, and the
  direct parse of strategy 1 returns the number.
\<close>

theorem extract_scalar_counterexample:
  "CHR ''{'' \<notin> set ''42'' \<and> CHR ''['' \<notin> set ''42''
   \<and> extract_json_from_response ''42'' ''API response'' = Inr (JInt 42)"
  by code_simp

text \<open>
  Claim C5, amended. For every input text that contains no \<open>{\<close> and no \<open>[\<close>, the
  extraction fails with the \<open>ValueError\<close> for an empty response when the trimmed text is
  empty, and with the \<open>ValueError\<close> "No JSON found" when neither the trimmed text nor the
  fence strategy yields a JSON value; otherwise it returns that value. It never reaches
  the bracket scan's candidate.
\<close>

theorem extract_no_brackets:
  assumes "CHR ''{'' \<notin> set response_text" and "CHR ''['' \<notin> set response_text"
  shows "extract_json_from_response response_text context =
           (if strip response_text = [] then Inl (ValueError, EmptyResponse context)
            else case json_loads (strip response_text) of
                   Some v \<Rightarrow> Inr v
                 | None \<Rightarrow>
                     (case fence_strategy (strip response_text) of
                        Some v \<Rightarrow> Inr v
                      | None \<Rightarrow> Inl (ValueError, NoJsonFound context (take 200 response_text))))"
proof -
  from assms set_strip [of response_text]
  have "find_char CHR ''{'' (strip response_text) = None"
    and "find_char CHR ''['' (strip response_text) = None"
    by (auto simp: find_char_None)
  then have "bracket_strategy response_text (strip response_text) context =
               Inl (ValueError, NoJsonFound context (take 200 response_text))"
    by (simp add: bracket_strategy_def)
  then show ?thesis
    by (auto simp: extract_json_from_response_def strip_Nil split: option.splits)
qed

theorem extract_no_brackets_witness:
  "CHR ''{'' \<notin> set ''no json here'' \<and> CHR ''['' \<notin> set ''no json here''
   \<and> extract_json_from_response ''no json here'' ''API response''
       = Inl (ValueError, NoJsonFound ''API response'' ''no json here'')"
proof -
  have a: "CHR ''{'' \<notin> set ''no json here''" and b: "CHR ''['' \<notin> set ''no json here''"
    by simp_all
  have c: "strip ''no json here'' = ''no json here''" by code_simp
  have d: "json_loads ''no json here'' = None" by code_simp
  have e: "fence_strategy ''no json here'' = None" by code_simp
  from extract_no_brackets [OF a b, of "''API response''"] a b c d e show ?thesis by simp
qed



section \<open>A payload in a fenced block\<close>

text \<open>
  The lexer accepts only safe texts, ignores whitespace around a text, and rejects a
  text that starts with a backtick. From these, the pattern can match a fenced payload
  only at its start, where the group is the payload without some leading whitespace, and
  the removal of the fence lines leaves the payload.
\<close>

lemma same_line_append: "set (same_line xs) \<subseteq> set (same_line (xs @ ys))"
  by (auto simp: same_line_def takeWhile_append dest: set_takeWhileD)

lemma safe_no_tick: "tick \<notin> set p \<Longrightarrow> safe p"
  by (auto simp: safe_def)

lemma safe_append:
  assumes "safe x" and "safe y"
  shows "safe (x @ y)"
  unfolding safe_def
proof (intro allI impI)
  fix a b
  assume eq: "x @ y = a @ tick # b"
  then consider us where "x = a @ us" "us @ y = tick # b" | us where "x @ us = a" "y = us @ tick # b"
    by (auto simp: append_eq_append_conv2)
  then show "enclosed a b"
  proof cases
    case 1
    show ?thesis
    proof (cases us)
      case Nil
      with 1 assms(2) have "enclosed [] b" by (auto simp: safe_def)
      then show ?thesis by (simp add: enclosed_def same_line_def)
    next
      case (Cons u us')
      with 1 have x: "x = a @ tick # us'" and b: "b = us' @ y" by auto
      from x assms(1) have "enclosed a us'" by (auto simp: safe_def)
      with b same_line_append [of us' y] show ?thesis by (auto simp: enclosed_def)
    qed
  next
    case 2
    with assms(2) have "enclosed us b" by (auto simp: safe_def)
    moreover from 2 have "rev a = rev us @ rev x" by auto
    ultimately show ?thesis
      using same_line_append [of "rev us" "rev x"] by (auto simp: enclosed_def)
  qed
qed

lemma safe_string:
  assumes "newline \<notin> set body"
  shows "safe (quote # body @ [quote])"
  unfolding safe_def
proof (intro allI impI)
  fix a b
  assume eq: "quote # body @ [quote] = a @ tick # b"
  have qt: "quote \<noteq> tick" by (simp add: quote_def tick_def)
  from eq qt obtain a' where a: "a = quote # a'" by (cases a) auto
  with eq have eq2: "body @ [quote] = a' @ tick # b" by simp
  with qt obtain b' where b: "b = b' @ [quote]"
    by (cases b rule: rev_cases) auto
  with eq2 have body: "body = a' @ tick # b'" by simp
  with assms have "newline \<notin> set a'" "newline \<notin> set b'" by auto
  moreover have "quote \<noteq> newline" by (simp add: quote_def newline_def)
  ultimately have "same_line (rev a) = rev a" "same_line b = b"
    using a b by (auto simp: same_line_def takeWhile_eq_all_conv)
  with a b show "enclosed a b" by (simp add: enclosed_def)
qed

lemma hex4_Some:
  assumes "hex4 r = Some u"
  shows "\<exists>a b c d r'. r = a # b # c # d # r' \<and> hex_val a \<noteq> None \<and> hex_val b \<noteq> None
           \<and> hex_val c \<noteq> None \<and> hex_val d \<noteq> None"
  using assms by (cases r rule: hex4.cases) (auto split: option.splits)

lemma hex_val_newline: "hex_val newline = None"
  by (simp add: hex_val_def newline_def code_def)

lemma simple_escape_newline: "simple_escape newline = None"
  by (simp add: simple_escape_def newline_def)

lemma scan_escape_consumed:
  assumes "scan_escape cs = Some (x, n)"
  shows "n \<le> length cs \<and> newline \<notin> set (take n cs)"
proof -
  from assms obtain e r where cs: "cs = e # r"
    by (cases cs) (auto simp: scan_escape_def)
  show ?thesis
  proof (cases "e = CHR ''u''")
    case False
    with assms cs have "n = 1" and "simple_escape e \<noteq> None"
      by (auto simp: scan_escape_def)
    with cs simple_escape_newline show ?thesis by auto
  next
    case True
    then have enl: "e \<noteq> newline" by (simp add: newline_def)
    from True assms cs obtain u where u: "hex4 r = Some u"
      by (auto simp: scan_escape_def split: option.splits)
    from hex4_Some [OF u] obtain a b c d r' where
      r: "r = a # b # c # d # r'" and
      h: "hex_val a \<noteq> None" "hex_val b \<noteq> None" "hex_val c \<noteq> None" "hex_val d \<noteq> None"
      by blast
    from h hex_val_newline have nl: "a \<noteq> newline" "b \<noteq> newline" "c \<noteq> newline" "d \<noteq> newline"
      by auto
    show ?thesis
    proof (cases "n = 5")
      case True
      with cs r enl nl show ?thesis by simp
    next
      case False
      with True assms cs u have pre: "prefix [CHR 0x5C, CHR ''u''] (drop 4 r)"
        and "n = 11" and "hex4 (drop 6 r) \<noteq> None"
        by (auto simp: scan_escape_def split: option.splits if_splits)
      from pre r obtain r2 where r': "r' = CHR 0x5C # CHR ''u'' # r2"
        by (auto simp: prefix_def)
      with r \<open>hex4 (drop 6 r) \<noteq> None\<close> obtain u2 where "hex4 r2 = Some u2" by auto
      from hex4_Some [OF this] obtain a2 b2 c2 d2 r3 where
        r2: "r2 = a2 # b2 # c2 # d2 # r3" and
        h2: "hex_val a2 \<noteq> None" "hex_val b2 \<noteq> None" "hex_val c2 \<noteq> None" "hex_val d2 \<noteq> None"
        by blast
      from h2 hex_val_newline have nl2: "a2 \<noteq> newline" "b2 \<noteq> newline" "c2 \<noteq> newline" "d2 \<noteq> newline"
        by auto
      have "CHR 0x5C \<noteq> newline" "CHR ''u'' \<noteq> newline" by (simp_all add: newline_def)
      with cs r r' r2 enl nl nl2 \<open>n = 11\<close> show ?thesis by simp
    qed
  qed
qed

lemma scan_string_consumed:
  "scan_string cs = Some (u, r) \<Longrightarrow> \<exists>body. cs = body @ quote # r \<and> newline \<notin> set body"
proof (induction cs arbitrary: u r rule: scan_string.induct)
  case 1
  then show ?case by simp
next
  case (2 c cs)
  show ?case
  proof (cases "c = CHR 0x22")
    case True
    with "2.prems" have "c # cs = [] @ quote # r" by (simp add: quote_def)
    then show ?thesis by (intro exI [of _ "[]"]) simp
  next
    case notq: False
    show ?thesis
    proof (cases "c = CHR 0x5C")
      case False
      with notq "2.prems" obtain u' where u': "scan_string cs = Some (u', r)"
        and c: "\<not> code c < 0x20"
        by (auto simp: cons_str_def split: if_splits)
      from "2.IH"(2) [OF notq False c u'] obtain body where
        "cs = body @ quote # r" "newline \<notin> set body" by blast
      moreover from c have "c \<noteq> newline" by (auto simp: newline_def code_def)
      ultimately show ?thesis by (intro exI [of _ "c # body"]) simp
    next
      case bs: True
      with "2.prems" notq obtain x n u' where
        e: "scan_escape cs = Some (x, n)" and u': "scan_string (drop n cs) = Some (u', r)"
        by (auto simp: cons_str_def split: option.splits)
      from "2.IH"(1) [OF notq bs e refl u'] obtain body where
        b: "drop n cs = body @ quote # r" "newline \<notin> set body" by blast
      from scan_escape_consumed [OF e] have n: "newline \<notin> set (take n cs)" by simp
      have "cs = take n cs @ drop n cs" by simp
      with b have "c # cs = (c # take n cs @ body) @ quote # r" by simp
      moreover from bs have "c \<noteq> newline" by (simp add: newline_def)
      ultimately show ?thesis using b n
        by (intro exI [of _ "c # take n cs @ body"]) simp
    qed
  qed
qed

lemma numchar_digits: "list_all numchar (takeWhile is_digit cs)"
  by (auto simp: list_all_iff numchar_def dest: set_takeWhileD)

lemma scan_int_part_consumed:
  assumes "scan_int_part s = Some (ip, r)"
  shows "s = ip @ r \<and> list_all numchar ip"
  using assms numchar_digits
  by (auto simp: scan_int_part_def numchar_def is_digit_def code_def split: list.splits if_splits)

lemma scan_frac_consumed:
  assumes "scan_frac s = (fp, r)"
  shows "\<exists>pre. s = pre @ r \<and> list_all numchar pre"
proof (cases "fp = []")
  case True
  with assms have "s = [] @ r"
    by (auto simp: scan_frac_def split: list.splits if_splits)
  then show ?thesis by (intro exI [of _ "[]"]) simp
next
  case False
  with assms obtain cs where "s = CHR ''.'' # cs" "fp = takeWhile is_digit cs" "r = dropWhile is_digit cs"
    by (auto simp: scan_frac_def split: list.splits if_splits)
  then have "s = (CHR ''.'' # takeWhile is_digit cs) @ r"
    and "list_all numchar (CHR ''.'' # takeWhile is_digit cs)"
    using numchar_digits by (simp_all add: numchar_def)
  then show ?thesis by blast
qed

lemma scan_exp_consumed:
  assumes "scan_exp s = (ex, r)"
  shows "\<exists>pre. s = pre @ r \<and> list_all numchar pre"
proof (cases ex)
  case None
  with assms have "s = [] @ r"
    by (auto simp: scan_exp_def split: list.splits if_splits)
  then show ?thesis by (intro exI [of _ "[]"]) simp
next
  case (Some e)
  with assms obtain c cs where s: "s = c # cs" and c: "c = CHR ''e'' \<or> c = CHR ''E''"
    by (auto simp: scan_exp_def split: list.splits if_splits)
  from c have nc: "numchar c" by (auto simp: numchar_def)
  from Some assms s c consider
      d ds where "cs = d # ds" "d = CHR ''-'' \<or> d = CHR ''+''" "r = dropWhile is_digit ds"
    | "r = dropWhile is_digit cs"
    by (auto simp: scan_exp_def split: list.splits if_splits)
  then show ?thesis
  proof cases
    case 1
    then have "numchar d" by (auto simp: numchar_def)
    with 1 s nc have "s = (c # d # takeWhile is_digit ds) @ r"
      and "list_all numchar (c # d # takeWhile is_digit ds)"
      using numchar_digits by simp_all
    then show ?thesis by blast
  next
    case 2
    with s nc have "s = (c # takeWhile is_digit cs) @ r"
      and "list_all numchar (c # takeWhile is_digit cs)"
      using numchar_digits by simp_all
    then show ?thesis by blast
  qed
qed

lemma scan_number_consumed:
  assumes "scan_number s = Some (t, r)"
  shows "\<exists>pre. s = pre @ r \<and> list_all numchar pre"
proof -
  obtain neg s1 where ns: "(case s of c # cs \<Rightarrow> if c = CHR ''-'' then (True, cs) else (False, s)
                               | [] \<Rightarrow> (False, s)) = (neg, s1)"
    by (cases "(case s of c # cs \<Rightarrow> if c = CHR ''-'' then (True, cs) else (False, s)
                               | [] \<Rightarrow> (False, s))") auto
  then obtain p0 where p0: "s = p0 @ s1" "list_all numchar p0"
  proof (cases "neg")
    case True
    with ns have "s = [CHR ''-''] @ s1" by (auto split: list.splits if_splits)
    moreover have "list_all numchar [CHR ''-'']" by (simp add: numchar_def)
    ultimately show ?thesis using that by blast
  next
    case False
    with ns have "s = [] @ s1" by (auto split: list.splits if_splits)
    then show ?thesis using that [of "[]"] by simp
  qed
  from assms ns obtain ip s2 where ip: "scan_int_part s1 = Some (ip, s2)"
    by (auto simp: scan_number_def split: option.splits)
  obtain fp s3 where fp: "scan_frac s2 = (fp, s3)" by (cases "scan_frac s2") auto
  obtain ex s4 where ex: "scan_exp s3 = (ex, s4)" by (cases "scan_exp s3") auto
  from assms ns ip fp ex have r: "r = s4"
    by (auto simp: scan_number_def Let_def split: if_splits)
  from scan_int_part_consumed [OF ip] have p1: "s1 = ip @ s2" "list_all numchar ip" by simp_all
  from scan_frac_consumed [OF fp] obtain p2 where p2: "s2 = p2 @ s3" "list_all numchar p2" by blast
  from scan_exp_consumed [OF ex] obtain p3 where p3: "s3 = p3 @ s4" "list_all numchar p3" by blast
  from p0 p1 p2 p3 r have "s = (p0 @ ip @ p2 @ p3) @ r" "list_all numchar (p0 @ ip @ p2 @ p3)"
    by simp_all
  then show ?thesis by blast
qed

lemma prefix_split: "prefix p s \<Longrightarrow> n = length p \<Longrightarrow> r = drop n s \<Longrightarrow> s = p @ r"
  by (auto simp: prefix_def)

lemma numchar_tick: "list_all numchar pre \<Longrightarrow> tick \<notin> set pre"
  by (auto simp: list_all_iff numchar_def tick_def is_digit_def code_def)

lemma scan_literal_consumed:
  assumes "scan_literal s = Some (t, r)"
  shows "\<exists>pre. s = pre @ r \<and> tick \<notin> set pre"
proof (cases "scan_number s")
  case (Some a)
  show ?thesis
  proof (cases "prefix ''null'' s \<or> prefix ''true'' s \<or> prefix ''false'' s")
    case True
    with assms consider "prefix ''null'' s" "r = drop 4 s"
      | "prefix ''true'' s" "r = drop 4 s"
      | "prefix ''false'' s" "r = drop 5 s"
      by (auto simp: scan_literal_def split: if_splits)
    then show ?thesis
    proof cases
      case 1
      from prefix_split [OF 1(1) _ 1(2)] have "s = ''null'' @ r" by simp
      then show ?thesis by (intro exI [of _ "''null''"]) (simp add: tick_def)
    next
      case 2
      from prefix_split [OF 2(1) _ 2(2)] have "s = ''true'' @ r" by simp
      then show ?thesis by (intro exI [of _ "''true''"]) (simp add: tick_def)
    next
      case 3
      from prefix_split [OF 3(1) _ 3(2)] have "s = ''false'' @ r" by simp
      then show ?thesis by (intro exI [of _ "''false''"]) (simp add: tick_def)
    qed
  next
    case False
    with Some assms have "scan_number s = Some (t, r)"
      by (auto simp: scan_literal_def)
    from scan_number_consumed [OF this] numchar_tick show ?thesis by blast
  qed
next
  case None
  with assms consider "prefix ''null'' s" "r = drop 4 s"
    | "prefix ''true'' s" "r = drop 4 s"
    | "prefix ''false'' s" "r = drop 5 s"
    | "prefix ''NaN'' s" "r = drop 3 s"
    | "prefix ''Infinity'' s" "r = drop 8 s"
    | "prefix ''-Infinity'' s" "r = drop 9 s"
    by (auto simp: scan_literal_def split: if_splits)
  then show ?thesis
  proof cases
    case 1
    from prefix_split [OF 1(1) _ 1(2)] have "s = ''null'' @ r" by simp
    then show ?thesis by (intro exI [of _ "''null''"]) (simp add: tick_def)
  next
    case 2
    from prefix_split [OF 2(1) _ 2(2)] have "s = ''true'' @ r" by simp
    then show ?thesis by (intro exI [of _ "''true''"]) (simp add: tick_def)
  next
    case 3
    from prefix_split [OF 3(1) _ 3(2)] have "s = ''false'' @ r" by simp
    then show ?thesis by (intro exI [of _ "''false''"]) (simp add: tick_def)
  next
    case 4
    from prefix_split [OF 4(1) _ 4(2)] have "s = ''NaN'' @ r" by simp
    then show ?thesis by (intro exI [of _ "''NaN''"]) (simp add: tick_def)
  next
    case 5
    from prefix_split [OF 5(1) _ 5(2)] have "s = ''Infinity'' @ r" by simp
    then show ?thesis by (intro exI [of _ "''Infinity''"]) (simp add: tick_def)
  next
    case 6
    from prefix_split [OF 6(1) _ 6(2)] have "s = ''-Infinity'' @ r" by simp
    then show ?thesis by (intro exI [of _ "''-Infinity''"]) (simp add: tick_def)
  qed
qed

lemma scan_punct_tick: "scan_punct c = Some t \<Longrightarrow> c \<noteq> tick"
  by (auto simp: scan_punct_def tick_def split: if_splits)

lemma scan_token_consumed:
  assumes "scan_token s = Some (t, r)"
  shows "\<exists>pre. s = pre @ r \<and> safe pre"
proof -
  from assms obtain c cs where s: "s = c # cs"
    by (cases s) (auto simp: scan_token_def)
  show ?thesis
  proof (cases "c = CHR 0x22")
    case True
    with assms s obtain u where "scan_string cs = Some (u, r)"
      by (auto simp: scan_token_def)
    from scan_string_consumed [OF this] obtain body where
      b: "cs = body @ quote # r" "newline \<notin> set body" by blast
    with True s have "s = (quote # body @ [quote]) @ r" by (simp add: quote_def)
    with safe_string [OF b(2)] show ?thesis by blast
  next
    case False
    show ?thesis
    proof (cases "scan_punct c")
      case (Some a)
      with False assms s have "s = [c] @ r" by (simp add: scan_token_def)
      moreover from scan_punct_tick [OF Some] have "safe [c]" by (simp add: safe_no_tick)
      ultimately show ?thesis by blast
    next
      case None
      with False assms s have "scan_literal s = Some (t, r)"
        by (simp add: scan_token_def)
      from scan_literal_consumed [OF this] safe_no_tick show ?thesis by blast
    qed
  qed
qed

lemma json_ws_tick: "json_ws c \<Longrightarrow> c \<noteq> tick"
  by (auto simp: json_ws_def tick_def)

lemma lex_safe: "lex s = Some ts \<Longrightarrow> safe s"
proof (induction s arbitrary: ts rule: lex.induct)
  case 1
  then show ?case by (simp add: safe_no_tick)
next
  case (2 c cs)
  show ?case
  proof (cases "json_ws c")
    case True
    with "2.prems" have "lex cs = Some ts" by simp
    from "2.IH"(1) [OF True this] have "safe cs" .
    moreover from json_ws_tick [OF True] have "safe [c]" by (simp add: safe_no_tick)
    ultimately have "safe ([c] @ cs)" by (rule safe_append [rotated])
    then show ?thesis by simp
  next
    case False
    with "2.prems" obtain t r ts' where
      tok: "scan_token (c # cs) = Some (t, r)" and rest: "lex r = Some ts'"
      by (auto split: option.splits)
    from "2.IH"(2) [OF False tok refl rest] have "safe r" .
    moreover from scan_token_consumed [OF tok] obtain pre where
      "c # cs = pre @ r" "safe pre" by blast
    ultimately show ?thesis using safe_append [of pre r] by simp
  qed
qed

lemma json_ws_is_space: "json_ws c \<Longrightarrow> is_space c"
  by (auto simp: json_ws_def is_space_def code_def)

lemma space_not_digit: "is_space c \<Longrightarrow> \<not> is_digit c"
  by (auto simp: is_space_def is_digit_def Let_def)

lemma space_not_char:
  assumes "is_space c"
  shows "c \<noteq> CHR 0x22" "c \<noteq> CHR ''{''" "c \<noteq> CHR ''[''" "c \<noteq> CHR ''}''" "c \<noteq> CHR '']''"
    "c \<noteq> CHR '':''" "c \<noteq> CHR '',''" "c \<noteq> CHR ''n''" "c \<noteq> CHR ''t''" "c \<noteq> CHR ''f''"
    "c \<noteq> CHR ''N''" "c \<noteq> CHR ''I''" "c \<noteq> CHR ''-''" "c \<noteq> CHR ''0''" "c \<noteq> CHR ''.''"
    "c \<noteq> CHR ''e''" "c \<noteq> CHR ''E''" "c \<noteq> CHR ''+''" "c \<noteq> CHR ''u''" "c \<noteq> CHR 0x5C"
  using assms by (auto simp: is_space_def code_def Let_def)

lemma space_scan_number: "is_space c \<Longrightarrow> scan_number (c # cs) = None"
  using space_not_char(13,14) [of c] space_not_digit [of c]
  by (simp add: scan_number_def scan_int_part_def)

lemma space_scan_literal: "is_space c \<Longrightarrow> scan_literal (c # cs) = None"
  using space_not_char(8-13) [of c] space_scan_number [of c cs]
  by (simp add: scan_literal_def)

lemma space_scan_punct: "is_space c \<Longrightarrow> scan_punct c = None"
  using space_not_char(2-7) [of c] by (simp add: scan_punct_def)

lemma space_scan_token: "is_space c \<Longrightarrow> scan_token (c # cs) = None"
  using space_not_char(1) [of c] space_scan_punct [of c] space_scan_literal [of c cs]
  by (simp add: scan_token_def)

lemma lex_drop_space:
  assumes "lex (c # cs) = Some ts" and "is_space c"
  shows "lex cs = Some ts"
proof (cases "json_ws c")
  case True
  with assms show ?thesis by simp
next
  case False
  with space_scan_token [OF assms(2), of cs] assms show ?thesis by simp
qed

lemma lex_drop_spaces:
  assumes "lex s = Some ts" and "j \<le> length (takeWhile is_space s)"
  shows "lex (drop j s) = Some ts"
  using assms
proof (induction j arbitrary: s)
  case 0
  then show ?case by simp
next
  case (Suc j)
  then obtain c cs where s: "s = c # cs" and c: "is_space c"
    by (cases s) (auto split: if_splits)
  with Suc.prems have "lex cs = Some ts" "j \<le> length (takeWhile is_space cs)"
    using lex_drop_space by auto
  from Suc.IH [OF this] s show ?case by simp
qed

lemma lex_lstrip: "lex s = Some ts \<Longrightarrow> lex (lstrip s) = Some ts"
  using lex_drop_spaces [of s ts "length (takeWhile is_space s)"]
  by (simp add: lstrip_def dropWhile_eq_drop)

lemma takeWhile_snoc: "\<not> P c \<Longrightarrow> takeWhile P (xs @ [c]) = takeWhile P xs"
  by (induction xs) auto

lemma dropWhile_snoc: "\<not> P c \<Longrightarrow> dropWhile P (xs @ [c]) = dropWhile P xs @ [c]"
  by (induction xs) auto

lemma space_hex_val: "is_space c \<Longrightarrow> hex_val c = None"
  by (auto simp: is_space_def hex_val_def Let_def)

lemma space_not_escape_char:
  assumes "is_space c"
  shows "c \<noteq> CHR 0x22" "c \<noteq> CHR 0x5C" "c \<noteq> CHR ''/''" "c \<noteq> CHR ''b''" "c \<noteq> CHR ''f''"
    "c \<noteq> CHR ''n''" "c \<noteq> CHR ''r''" "c \<noteq> CHR ''t''"
  using assms by (auto simp: is_space_def code_def Let_def)

lemma space_simple_escape: "is_space c \<Longrightarrow> simple_escape c = None"
  using space_not_escape_char [of c] by (simp add: simple_escape_def)

lemma hex4_snoc: "hex_val c = None \<Longrightarrow> hex4 (y @ [c]) = hex4 y"
  by (cases y rule: hex4.cases) (auto split: option.splits)

lemma prefix_bu_snoc:
  assumes "c \<noteq> CHR ''u''" and "c \<noteq> CHR 0x5C"
  shows "prefix [CHR 0x5C, CHR ''u''] (x @ [c]) \<longleftrightarrow> prefix [CHR 0x5C, CHR ''u''] x"
  using assms by (auto simp: prefix_snoc)

lemma scan_escape_snoc:
  assumes "is_space c"
  shows "scan_escape (cs @ [c]) = scan_escape cs"
proof (cases cs)
  case Nil
  with space_not_char(19) [OF assms] space_simple_escape [OF assms] show ?thesis
    by (simp add: scan_escape_def)
next
  case (Cons e r)
  have h1: "hex4 (r @ [c]) = hex4 r"
    by (rule hex4_snoc [OF space_hex_val [OF assms]])
  have rest: "prefix [CHR 0x5C, CHR ''u''] (drop 4 (r @ [c])) = prefix [CHR 0x5C, CHR ''u''] (drop 4 r)
            \<and> (prefix [CHR 0x5C, CHR ''u''] (drop 4 r) \<longrightarrow> hex4 (drop 6 (r @ [c])) = hex4 (drop 6 r))"
    if "hex4 r = Some u" for u
  proof -
    from hex4_Some [OF that] obtain a b c' d r' where r: "r = a # b # c' # d # r'" by blast
    then have d4: "drop 4 (r @ [c]) = drop 4 r @ [c]" by simp
    have p: "prefix [CHR 0x5C, CHR ''u''] (drop 4 r @ [c]) = prefix [CHR 0x5C, CHR ''u''] (drop 4 r)"
      by (rule prefix_bu_snoc [OF space_not_char(19) [OF assms] space_not_char(20) [OF assms]])
    have "hex4 (drop 6 (r @ [c])) = hex4 (drop 6 r)" if "prefix [CHR 0x5C, CHR ''u''] (drop 4 r)"
    proof -
      from that r obtain r2 where "r' = CHR 0x5C # CHR ''u'' # r2" by (auto simp: prefix_def)
      with r have "drop 6 (r @ [c]) = drop 6 r @ [c]" by simp
      then show ?thesis by (simp only: hex4_snoc [OF space_hex_val [OF assms]])
    qed
    with d4 p show ?thesis by simp
  qed
  show ?thesis
  proof (cases "hex4 r")
    case None
    with h1 show ?thesis
      by (simp only: Cons append_Cons scan_escape_def list.case option.case)
  next
    case (Some u)
    show ?thesis
    proof (cases "prefix [CHR 0x5C, CHR ''u''] (drop 4 r)")
      case True
      with rest [OF Some] have "hex4 (drop 6 (r @ [c])) = hex4 (drop 6 r)"
        and "prefix [CHR 0x5C, CHR ''u''] (drop 4 (r @ [c]))" by simp_all
      with h1 Some True show ?thesis
        by (simp only: Cons append_Cons scan_escape_def list.case option.case)
    next
      case False
      with rest [OF Some] have "\<not> prefix [CHR 0x5C, CHR ''u''] (drop 4 (r @ [c]))" by simp
      with h1 Some False show ?thesis
        by (simp only: Cons append_Cons scan_escape_def list.case option.case simp_thms if_False)
    qed
  qed
qed

lemma cons_str_map:
  "cons_str x (map_option (\<lambda>(u, r). (u, r @ [c])) m) = map_option (\<lambda>(u, r). (u, r @ [c])) (cons_str x m)"
  by (cases m) (auto simp: cons_str_def)

lemma scan_string_snoc:
  assumes "is_space c"
  shows "scan_string (s @ [c]) = map_option (\<lambda>(u, r). (u, r @ [c])) (scan_string s)"
proof (induction s rule: scan_string.induct)
  case 1
  from space_not_char(1,20) [OF assms] show ?case by (simp add: cons_str_def)
next
  case (2 c0 cs)
  show ?case
  proof (cases "c0 = CHR 0x22")
    case True
    then show ?thesis by simp
  next
    case notq: False
    show ?thesis
    proof (cases "c0 = CHR 0x5C")
      case False
      show ?thesis
      proof (cases "code c0 < 0x20")
        case True
        with notq False show ?thesis by simp
      next
        case ge: False
        from "2.IH"(2) [OF notq False ge] notq False ge show ?thesis
          by (simp add: cons_str_map)
      qed
    next
      case bs: True
      show ?thesis
      proof (cases "scan_escape cs")
        case None
        with notq bs scan_escape_snoc [OF assms, of cs] show ?thesis by simp
      next
        case (Some a)
        obtain x n where a: "a = (x, n)" by (cases a)
        with Some have e: "scan_escape cs = Some (x, n)" by simp
        from scan_escape_consumed [OF e] have d: "drop n (cs @ [c]) = drop n cs @ [c]"
          by simp
        from "2.IH"(1) [OF notq bs e refl] d
        have "scan_string (drop n (cs @ [c])) =
                map_option (\<lambda>(u, r). (u, r @ [c])) (scan_string (drop n cs))" by simp
        with notq bs e scan_escape_snoc [OF assms, of cs] show ?thesis
          by (simp add: cons_str_map del: drop_append)
      qed
    qed
  qed
qed

lemma scan_int_part_snoc:
  assumes "is_space c"
  shows "scan_int_part (s @ [c]) = map_option (\<lambda>(ip, r). (ip, r @ [c])) (scan_int_part s)"
proof (cases s)
  case Nil
  with space_not_char(14) [OF assms] space_not_digit [OF assms] show ?thesis
    by (simp add: scan_int_part_def)
next
  case (Cons c0 cs)
  with takeWhile_snoc [of is_digit c cs] dropWhile_snoc [of is_digit c cs]
    space_not_digit [OF assms]
  show ?thesis by (simp add: scan_int_part_def)
qed

lemma scan_frac_snoc:
  assumes "is_space c"
  shows "scan_frac (s @ [c]) = (fst (scan_frac s), snd (scan_frac s) @ [c])"
proof (cases s)
  case Nil
  with space_not_char(15) [OF assms] show ?thesis by (simp add: scan_frac_def)
next
  case (Cons c0 cs)
  with takeWhile_snoc [of is_digit c cs] dropWhile_snoc [of is_digit c cs]
    space_not_digit [OF assms]
  show ?thesis by (simp add: scan_frac_def)
qed

lemma scan_exp_snoc:
  assumes "is_space c"
  shows "scan_exp (s @ [c]) = (fst (scan_exp s), snd (scan_exp s) @ [c])"
proof (cases s)
  case Nil
  with space_not_char(16,17) [OF assms] show ?thesis by (simp add: scan_exp_def)
next
  case (Cons c0 cs)
  note nd = space_not_digit [OF assms]
  show ?thesis
  proof (cases cs)
    case Nil
    with Cons space_not_char(13,18) [OF assms] nd show ?thesis
      by (simp add: scan_exp_def)
  next
    case (Cons d ds)
    with \<open>s = c0 # cs\<close> takeWhile_snoc [of is_digit c ds] dropWhile_snoc [of is_digit c ds]
      takeWhile_snoc [of is_digit c "d # ds"] dropWhile_snoc [of is_digit c "d # ds"] nd
    show ?thesis by (simp add: scan_exp_def)
  qed
qed

lemma scan_number_snoc:
  assumes "is_space c"
  shows "scan_number (s @ [c]) = map_option (\<lambda>(t, r). (t, r @ [c])) (scan_number s)"
proof -
  have main: "(case scan_int_part (s1 @ [c]) of
           None \<Rightarrow> None
         | Some (ip, s2) \<Rightarrow>
             (let (fp, s3) = scan_frac s2; (ex, s4) = scan_exp s3;
                  sgn = (if neg then -1 else 1 :: int)
              in if fp = [] \<and> ex = None then Some (TInt (sgn * digits_val ip), s4)
                 else Some (TFloat (Dec (sgn * digits_val (ip @ fp))
                                        ((case ex of None \<Rightarrow> 0 | Some e \<Rightarrow> e) - int (length fp))),
                            s4)))
        = map_option (\<lambda>(t, r). (t, r @ [c]))
          (case scan_int_part s1 of
           None \<Rightarrow> None
         | Some (ip, s2) \<Rightarrow>
             (let (fp, s3) = scan_frac s2; (ex, s4) = scan_exp s3;
                  sgn = (if neg then -1 else 1 :: int)
              in if fp = [] \<and> ex = None then Some (TInt (sgn * digits_val ip), s4)
                 else Some (TFloat (Dec (sgn * digits_val (ip @ fp))
                                        ((case ex of None \<Rightarrow> 0 | Some e \<Rightarrow> e) - int (length fp))),
                            s4)))" for s1 neg
  proof (cases "scan_int_part s1")
    case None
    then show ?thesis by (simp add: scan_int_part_snoc [OF assms])
  next
    case (Some a)
    obtain ip s2 where a: "a = (ip, s2)" by (cases a)
    obtain fp s3 where fp: "scan_frac s2 = (fp, s3)" by (cases "scan_frac s2")
    obtain ex s4 where ex: "scan_exp s3 = (ex, s4)" by (cases "scan_exp s3")
    from fp have fp': "scan_frac (s2 @ [c]) = (fp, s3 @ [c])"
      by (simp add: scan_frac_snoc [OF assms])
    from ex have ex': "scan_exp (s3 @ [c]) = (ex, s4 @ [c])"
      by (simp add: scan_exp_snoc [OF assms])
    from Some a fp ex fp' ex' show ?thesis
      by (simp add: scan_int_part_snoc [OF assms] Let_def)
  qed
  show ?thesis
  proof (cases s)
    case Nil
    with space_not_char(13) [OF assms] main [where ?s1.0 = "[]" and neg = False] show ?thesis
      by (simp add: scan_number_def)
  next
    case (Cons c0 cs)
    show ?thesis
    proof (cases "c0 = CHR ''-''")
      case True
      with Cons main [where ?s1.0 = cs and neg = True] show ?thesis by (simp add: scan_number_def)
    next
      case False
      with Cons main [where ?s1.0 = "c0 # cs" and neg = False] show ?thesis by (simp add: scan_number_def)
    qed
  qed
qed

lemma prefix_lit_snoc:
  assumes "c \<notin> set p"
  shows "prefix p (s @ [c]) \<longleftrightarrow> prefix p s"
  using assms by (auto simp: prefix_snoc)

lemma drop_lit_snoc: "prefix p s \<Longrightarrow> n = length p \<Longrightarrow> drop n (s @ [c]) = drop n s @ [c]"
  by (auto simp: prefix_def)

lemma scan_literal_snoc:
  assumes "is_space c"
  shows "scan_literal (s @ [c]) = map_option (\<lambda>(t, r). (t, r @ [c])) (scan_literal s)"
proof -
  have notin: "c \<notin> set ''null''" "c \<notin> set ''true''" "c \<notin> set ''false''" "c \<notin> set ''NaN''"
    "c \<notin> set ''Infinity''" "c \<notin> set ''-Infinity''"
    using assms by (auto simp: is_space_def code_def Let_def)
  note p = notin [THEN prefix_lit_snoc, of s]
  have d: "prefix ''null'' s \<Longrightarrow> drop 4 (s @ [c]) = drop 4 s @ [c]"
    "prefix ''true'' s \<Longrightarrow> drop 4 (s @ [c]) = drop 4 s @ [c]"
    "prefix ''false'' s \<Longrightarrow> drop 5 (s @ [c]) = drop 5 s @ [c]"
    "prefix ''NaN'' s \<Longrightarrow> drop 3 (s @ [c]) = drop 3 s @ [c]"
    "prefix ''Infinity'' s \<Longrightarrow> drop 8 (s @ [c]) = drop 8 s @ [c]"
    "prefix ''-Infinity'' s \<Longrightarrow> drop 9 (s @ [c]) = drop 9 s @ [c]"
    by (rule drop_lit_snoc, assumption, simp)+
  show ?thesis
    unfolding scan_literal_def p scan_number_snoc [OF assms]
    using d by (auto simp del: drop_append split: option.splits)
qed

lemma scan_token_snoc:
  assumes "is_space c"
  shows "scan_token (s @ [c]) = map_option (\<lambda>(t, r). (t, r @ [c])) (scan_token s)"
proof (cases s)
  case Nil
  with space_scan_token [OF assms, of "[]"] show ?thesis by (simp add: scan_token_def)
next
  case (Cons c0 cs)
  show ?thesis
  proof (cases "c0 = CHR 0x22")
    case True
    with Cons show ?thesis
      by (simp add: scan_token_def scan_string_snoc [OF assms] option.map_comp comp_def split_beta)
  next
    case False
    show ?thesis
    proof (cases "scan_punct c0")
      case (Some a)
      with False Cons show ?thesis by (simp add: scan_token_def)
    next
      case None
      with False Cons scan_literal_snoc [OF assms, of "c0 # cs"] show ?thesis
        by (simp add: scan_token_def)
    qed
  qed
qed

lemma lex_snoc:
  assumes "is_space c"
  shows "lex (s @ [c]) = Some ts \<Longrightarrow> lex s = Some ts"
proof (induction s arbitrary: ts rule: lex.induct)
  case 1
  with space_scan_token [OF assms, of "[]"] show ?case
    by (auto split: if_splits)
next
  case (2 c0 cs)
  show ?case
  proof (cases "json_ws c0")
    case True
    with "2.prems" have "lex (cs @ [c]) = Some ts" by simp
    from "2.IH"(1) [OF True this] True show ?thesis by simp
  next
    case False
    with "2.prems" obtain t r1 ts' where
      tok: "scan_token ((c0 # cs) @ [c]) = Some (t, r1)" and rest: "lex r1 = Some ts'"
      and ts: "ts = t # ts'"
      by (auto split: option.splits)
    from tok scan_token_snoc [OF assms, of "c0 # cs"] obtain r0 where
      tok0: "scan_token (c0 # cs) = Some (t, r0)" and r1: "r1 = r0 @ [c]"
      by (cases "scan_token (c0 # cs)") auto
    from "2.IH"(2) [OF False tok0 refl] rest r1 have "lex r0 = Some ts'" by simp
    with False tok0 ts show ?thesis by simp
  qed
qed

lemma lex_drop_trailing:
  assumes "list_all is_space tr" and "lex (q @ tr) = Some ts"
  shows "lex q = Some ts"
  using assms
proof (induction tr rule: rev_induct)
  case Nil
  then show ?case by simp
next
  case (snoc c tr)
  from snoc.prems have "is_space c" and "lex ((q @ tr) @ [c]) = Some ts" by simp_all
  from lex_snoc [OF this] snoc.prems snoc.IH show ?case by simp
qed

lemma rstrip_split: "\<exists>tr. s = rstrip s @ tr \<and> list_all is_space tr"
proof -
  have "rev s = takeWhile is_space (rev s) @ dropWhile is_space (rev s)" by simp
  then have "s = rev (dropWhile is_space (rev s)) @ rev (takeWhile is_space (rev s))"
    by (metis rev_append rev_rev_ident)
  moreover have "list_all is_space (rev (takeWhile is_space (rev s)))"
    by (auto simp: list_all_iff dest: set_takeWhileD)
  ultimately show ?thesis unfolding rstrip_def by blast
qed

lemma lex_rstrip: "lex s = Some ts \<Longrightarrow> lex (rstrip s) = Some ts"
  using rstrip_split [of s] lex_drop_trailing by metis

lemma lex_strip: "lex s = Some ts \<Longrightarrow> lex (strip s) = Some ts"
  unfolding strip_def by (intro lex_rstrip lex_lstrip)

lemma json_loads_strip: "json_loads s = Some v \<Longrightarrow> json_loads (strip s) = Some v"
  by (auto simp: json_loads_def lex_strip split: option.splits)

lemma tick_not_space: "\<not> is_space tick"
  by (simp add: is_space_def tick_def code_def)

lemma fence_ticks: "fence = [tick, tick, tick]"
  by (simp add: fence_def tick_def)

lemma lstrip_nonspace: "\<not> is_space c \<Longrightarrow> lstrip (c # s) = c # s"
  by (simp add: lstrip_def)

lemma rstrip_append_nonspace:
  assumes "x \<noteq> []" and "\<not> is_space (last x)"
  shows "rstrip (x @ y) = x @ rstrip y"
proof -
  from assms obtain x' c where x: "x = x' @ [c]" and c: "\<not> is_space c"
    by (cases x rule: rev_cases) auto
  have "dropWhile is_space (rev y @ c # rev x') =
          (if \<forall>z \<in> set (rev y). is_space z then c # rev x'
           else dropWhile is_space (rev y) @ c # rev x')"
    using c by (simp add: dropWhile_append)
  then show ?thesis
    using x by (auto simp: rstrip_def dropWhile_eq_Nil_conv)
qed

lemma strip_fenced: "strip (fence @ s @ fence) = fence @ s @ fence"
proof -
  have "lstrip (fence @ s @ fence) = fence @ s @ fence"
    using tick_not_space by (simp add: fence_ticks lstrip_nonspace)
  moreover have "rstrip ((fence @ s @ fence) @ []) = (fence @ s @ fence) @ rstrip []"
    by (rule rstrip_append_nonspace) (use tick_not_space in \<open>simp_all add: fence_ticks\<close>)
  ultimately show ?thesis by (simp add: strip_def rstrip_def)
qed

lemma scan_token_tick: "scan_token (tick # s) = None"
proof -
  have "scan_number (tick # s) = None"
    by (simp add: scan_number_def scan_int_part_def tick_def is_digit_def code_def)
  then have "scan_literal (tick # s) = None"
    by (simp add: scan_literal_def tick_def)
  then show ?thesis
    by (simp add: scan_token_def scan_punct_def tick_def)
qed

lemma json_loads_tick: "json_loads (tick # s) = None"
  using scan_token_tick [of s] by (simp add: json_loads_def json_ws_def tick_def)

lemma contains_prefix: "prefix p s \<Longrightarrow> s \<noteq> [] \<Longrightarrow> contains p s"
  by (cases s) auto

lemma after_spaces_Some:
  "after_spaces K s = Some g \<Longrightarrow> \<exists>k \<le> K. newline_then_body k s = Some g"
proof (induction K)
  case 0
  then show ?case by auto
next
  case (Suc K)
  show ?case
  proof (cases "newline_then_body (Suc K) s")
    case None
    with Suc obtain k where "k \<le> K" "newline_then_body k s = Some g" by auto
    then show ?thesis by (intro exI [of _ k]) simp
  next
    case (Some a)
    with Suc.prems show ?thesis by (intro exI [of _ "Suc K"]) simp
  qed
qed

lemma newline_then_body_Some:
  assumes "newline_then_body k s = Some g"
  shows "k < length s \<and> s ! k = newline \<and> lazy_body (drop (Suc k) s) = Some g"
proof -
  from assms obtain c r where d: "drop k s = c # r"
    by (cases "drop k s") (auto simp: newline_then_body_def)
  with assms have c: "c = newline" and b: "lazy_body r = Some g"
    by (auto simp: newline_then_body_def split: if_splits)
  from d have k: "k < length s" by (cases "k < length s") auto
  from d k have "s ! k = c" by (metis nth_via_drop)
  moreover from d have "drop (Suc k) s = r" by (metis drop_Suc tl_drop list.sel(3))
  ultimately show ?thesis using k c b by simp
qed

lemma fence_tail_Some:
  assumes "fence_tail s = Some g"
  shows "\<exists>k. k \<le> length (takeWhile is_space s) \<and> k < length s \<and> s ! k = newline
             \<and> lazy_body (drop (Suc k) s) = Some g"
  using after_spaces_Some [OF assms [unfolded fence_tail_def]] newline_then_body_Some
  by blast

lemma takeWhile_nth_holds:
  assumes "i < length (takeWhile P xs)"
  shows "P (xs ! i)"
proof -
  from assms have "takeWhile P xs ! i \<in> set (takeWhile P xs)" by (rule nth_mem)
  then have "P (takeWhile P xs ! i)" by (rule set_takeWhileD [THEN conjunct2])
  with assms show ?thesis by (simp add: takeWhile_nth)
qed

lemma fence_tail_spaces:
  assumes "fence_tail s = Some g"
  shows "list_all is_space (same_line s)"
proof -
  from fence_tail_Some [OF assms] obtain k where
    k: "k \<le> length (takeWhile is_space s)" "k < length s" "s ! k = newline" by blast
  have len: "length (same_line s) \<le> k"
  proof (rule ccontr)
    assume "\<not> length (same_line s) \<le> k"
    then have "k < length (takeWhile (\<lambda>c. c \<noteq> newline) s)" by (simp add: same_line_def)
    from takeWhile_nth_holds [OF this] k show False by simp
  qed
  have "is_space x" if "x \<in> set (same_line s)" for x
  proof -
    from that obtain i where i: "i < length (same_line s)" "same_line s ! i = x"
      by (auto simp: in_set_conv_nth)
    then have "s ! i = x" by (simp add: same_line_def takeWhile_nth)
    moreover from i len k have "i < length (takeWhile is_space s)" by simp
    from takeWhile_nth_holds [OF this] have "is_space (s ! i)" .
    ultimately show ?thesis by simp
  qed
  then show ?thesis by (simp add: list_all_iff)
qed

lemma safe_no_newline_tick:
  assumes "safe p"
  shows "p \<noteq> a @ newline # tick # b"
proof
  assume "p = a @ newline # tick # b"
  then have "p = (a @ [newline]) @ tick # b" by simp
  with assms have "enclosed (a @ [newline]) b" unfolding safe_def by blast
  then show False by (simp add: enclosed_def same_line_def)
qed

lemma lazy_body_end:
  "(\<And>a b. q \<noteq> a @ newline # tick # b) \<Longrightarrow> lazy_body (q @ newline # fence) = Some q"
proof (induction q)
  case Nil
  then show ?case by simp
next
  case (Cons c q)
  have "q \<noteq> a @ newline # tick # b" for a b
    using Cons.prems [of "c # a" b] by simp
  then have ih: "lazy_body (q @ newline # fence) = Some q" by (rule Cons.IH)
  have "\<not> prefix (newline # fence) (c # q @ newline # fence)"
  proof
    assume pre: "prefix (newline # fence) (c # q @ newline # fence)"
    then have c: "c = newline" by simp
    show False
    proof (cases q)
      case Nil
      with pre show ?thesis by (simp add: fence_def newline_def)
    next
      case (Cons d q')
      with pre have "d = tick" by (simp add: fence_ticks)
      with Cons c Cons.prems [of "[]" q'] show ?thesis by simp
    qed
  qed
  with ih show ?case by simp
qed

lemma lex_nonspace:
  assumes "lex p = Some ts" and "ts \<noteq> []"
  shows "\<exists>c \<in> set p. \<not> is_space c"
proof (rule ccontr)
  assume "\<not> (\<exists>c \<in> set p. \<not> is_space c)"
  then have "takeWhile is_space p = p" by (simp add: takeWhile_eq_all_conv)
  with lex_drop_spaces [OF assms(1), of "length p"] assms(2) show False by simp
qed

lemma spaces_prefix_length:
  assumes "list_all is_space sp" and "p = sp @ r"
  shows "length sp \<le> length (takeWhile is_space p)"
  using assms by (simp add: list_all_iff takeWhile_append)

lemma fence_tail_split:
  assumes "fence_tail s = Some g"
  shows "\<exists>sp r. s = sp @ newline # r \<and> list_all is_space sp \<and> lazy_body r = Some g"
proof -
  from fence_tail_Some [OF assms] obtain k where
    k: "k \<le> length (takeWhile is_space s)" "k < length s" "s ! k = newline"
       "lazy_body (drop (Suc k) s) = Some g" by blast
  from k(2,3) have "s = take k s @ newline # drop (Suc k) s"
    by (metis id_take_nth_drop)
  moreover have "list_all is_space (take k s)"
  proof -
    have "is_space x" if "x \<in> set (take k s)" for x
    proof -
      from that obtain i where i: "i < length (take k s)" "take k s ! i = x"
        by (auto simp: in_set_conv_nth)
      with k have "i < length (takeWhile is_space s)" by simp
      from takeWhile_nth_holds [OF this] i show ?thesis by simp
    qed
    then show ?thesis by (simp add: list_all_iff)
  qed
  ultimately show ?thesis using k(4) by blast
qed

lemma newline_is_space: "is_space newline"
  by (simp add: is_space_def newline_def code_def)

lemma fence_tail_payload:
  assumes ft: "fence_tail (t @ newline # p @ newline # fence) = Some g"
    and t: "newline \<notin> set t" and safe: "safe p" and ns: "\<exists>c \<in> set p. \<not> is_space c"
  shows "\<exists>j \<le> length (takeWhile is_space p). g = drop j p"
proof -
  from fence_tail_split [OF ft] obtain sp r where
    eq: "t @ newline # p @ newline # fence = sp @ newline # r"
    and sp: "list_all is_space sp" and body: "lazy_body r = Some g" by blast
  from eq consider us where "t = sp @ us" "us @ newline # p @ newline # fence = newline # r"
    | us where "t @ us = sp" "newline # p @ newline # fence = us @ newline # r"
    by (auto simp: append_eq_append_conv2)
  then have "\<exists>us. list_all is_space us \<and> newline # p @ newline # fence = us @ newline # r"
  proof cases
    case 1
    show ?thesis
    proof (cases us)
      case Nil
      with 1 show ?thesis by (intro exI [of _ "[]"]) simp
    next
      case (Cons u us')
      with 1 t show ?thesis by auto
    qed
  next
    case 2
    with sp show ?thesis by (intro exI [of _ us]) auto
  qed
  then obtain us where us: "list_all is_space us"
    and eq2: "newline # p @ newline # fence = us @ newline # r" by blast
  have "\<exists>j \<le> length (takeWhile is_space p). r = drop j p @ newline # fence"
  proof (cases us)
    case Nil
    with eq2 show ?thesis by (intro exI [of _ 0]) simp
  next
    case (Cons u us')
    with eq2 have eq3: "p @ newline # fence = us' @ newline # r" by simp
    from us Cons have us': "list_all is_space us'" by simp
    from eq3 consider ws where "p = us' @ ws" "ws @ newline # fence = newline # r"
      | ws where "p @ ws = us'" by (auto simp: append_eq_append_conv2)
    then show ?thesis
    proof cases
      case 1
      show ?thesis
      proof (cases ws)
        case Nil
        with 1 us' ns show ?thesis by (auto simp: list_all_iff)
      next
        case (Cons x ws')
        with 1 have p: "p = (us' @ [newline]) @ ws'" and r: "r = ws' @ newline # fence" by auto
        from us' newline_is_space have "list_all is_space (us' @ [newline])" by simp
        from spaces_prefix_length [OF this p]
        have "length us' + 1 \<le> length (takeWhile is_space p)" by simp
        moreover from p have "drop (length us' + 1) p = ws'" by simp
        ultimately show ?thesis using r by (intro exI [of _ "length us' + 1"]) simp
      qed
    next
      case 2
      with us' ns show ?thesis by (auto simp: list_all_iff)
    qed
  qed
  then obtain j where j: "j \<le> length (takeWhile is_space p)" and r: "r = drop j p @ newline # fence"
    by blast
  have "drop j p \<noteq> a @ newline # tick # b" for a b
  proof
    assume "drop j p = a @ newline # tick # b"
    then have "p = (take j p @ a) @ newline # tick # b"
      by (metis append_take_drop_id append.assoc)
    with safe_no_newline_tick [OF safe] show False by blast
  qed
  then have "lazy_body (drop j p @ newline # fence) = Some (drop j p)" by (rule lazy_body_end)
  with body r j show ?thesis by auto
qed

lemma prefix_append_notin:
  "prefix xs (ys @ c # zs) \<Longrightarrow> c \<notin> set xs \<Longrightarrow> prefix xs ys"
proof (induction xs arbitrary: ys)
  case Nil
  then show ?case by simp
next
  case (Cons x xs)
  show ?case
  proof (cases ys)
    case Nil
    with Cons.prems show ?thesis by simp
  next
    case (Cons y ys')
    with Cons.prems Cons.IH [of ys'] show ?thesis by simp
  qed
qed

lemma prefix_json_tag:
  assumes "prefix ''json'' (tag @ newline # s)"
  shows "prefix ''json'' tag"
  using assms by (rule prefix_append_notin) (simp add: newline_def)

lemma match_here_payload:
  assumes m: "match_here (fence @ tag @ newline # p @ newline # fence) = Some g"
    and t: "newline \<notin> set tag" and safe: "safe p" and ns: "\<exists>c \<in> set p. \<not> is_space c"
  shows "\<exists>j \<le> length (takeWhile is_space p). g = drop j p"
proof -
  let ?rest = "newline # p @ newline # fence"
  have d3: "drop 3 (fence @ tag @ ?rest) = tag @ ?rest" by (simp add: fence_def)
  have d7: "drop 7 (fence @ tag @ ?rest) = drop 4 (tag @ ?rest)" by (simp add: fence_def)
  from m d3 d7 consider
      "prefix ''json'' (tag @ ?rest)" "fence_tail (drop 4 (tag @ ?rest)) = Some g"
    | "fence_tail (tag @ ?rest) = Some g"
    by (auto simp: match_here_def split: if_splits option.splits)
  then show ?thesis
  proof cases
    case 1
    from prefix_json_tag [OF 1(1)] obtain tag2 where tag: "tag = ''json'' @ tag2"
      by (auto simp: prefix_def)
    with 1(2) have "fence_tail (tag2 @ ?rest) = Some g" by simp
    moreover from tag t have "newline \<notin> set tag2" by simp
    ultimately show ?thesis using safe ns by (rule fence_tail_payload)
  next
    case 2
    then show ?thesis using t safe ns by (rule fence_tail_payload)
  qed
qed

lemma quote_not_space: "\<not> is_space quote"
  by (simp add: is_space_def quote_def code_def)

lemma same_line_Cons: "c \<noteq> newline \<Longrightarrow> same_line (c # s) = c # same_line s"
  by (simp add: same_line_def)

lemma quote_not_tick: "quote \<noteq> tick"
  by (simp add: quote_def tick_def)

lemma tick_not_newline: "tick \<noteq> newline"
  by (simp add: tick_def newline_def)

lemma fence_tail_newline:
  assumes "fence_tail s = Some g"
  shows "s \<noteq> []"
  using fence_tail_Some [OF assms] by auto

text \<open>A match at the head of a text: no quote on the line after the first backtick.\<close>

lemma match_here_line:
  assumes "match_here s = Some g"
  shows "\<exists>r. s = fence @ r \<and> r \<noteq> [] \<and> quote \<notin> set (same_line r)"
proof -
  from assms have pre: "prefix fence s"
    by (auto simp: match_here_def split: if_splits)
  then have s: "s = fence @ drop 3 s"
    by (rule prefix_split) (simp_all add: fence_def)
  from assms pre consider
      "prefix ''json'' (drop 3 s)" "fence_tail (drop 7 s) = Some g"
    | "fence_tail (drop 3 s) = Some g"
    by (auto simp: match_here_def split: if_splits option.splits)
  then have "drop 3 s \<noteq> [] \<and> quote \<notin> set (same_line (drop 3 s))"
  proof cases
    case 1
    from 1(1) have d: "drop 3 s = ''json'' @ drop 4 (drop 3 s)"
      by (rule prefix_split [where n = 4]) simp_all
    have d7: "drop 4 (drop 3 s) = drop 7 s" by simp
    from fence_tail_spaces [OF 1(2)] have "quote \<notin> set (same_line (drop 7 s))"
      using quote_not_space by (auto simp: list_all_iff)
    moreover have "same_line (''json'' @ drop 7 s) = ''json'' @ same_line (drop 7 s)"
      by (simp add: same_line_def newline_def)
    ultimately have "quote \<notin> set (same_line (''json'' @ drop 7 s))"
      by (simp add: quote_def)
    with d d7 show ?thesis by (metis append_is_Nil_conv list.distinct(1))
  next
    case 2
    from fence_tail_spaces [OF 2] have "quote \<notin> set (same_line (drop 3 s))"
      using quote_not_space by (auto simp: list_all_iff)
    with fence_tail_newline [OF 2] show ?thesis by simp
  qed
  with s show ?thesis by metis
qed

lemma first_match_None:
  "(\<And>s'. suffix s' s \<Longrightarrow> match_here s' = None) \<Longrightarrow> first_match s = None"
proof (induction s)
  case Nil
  then show ?case by simp
next
  case (Cons c s)
  have "match_here (c # s) = None" by (rule Cons.prems) simp
  moreover have "first_match s = None"
    by (rule Cons.IH) (simp add: Cons.prems suffix_Cons)
  ultimately show ?case by simp
qed

lemma safe_head: "safe (c # x) \<Longrightarrow> c \<noteq> tick"
  unfolding safe_def enclosed_def same_line_def
  by (metis append_Nil empty_iff list.set(1) rev.simps(1) takeWhile.simps(1))

lemma suffix_fence_cases:
  "suffix f (tick # tick # x) \<Longrightarrow> f = tick # tick # x \<or> f = tick # x \<or> suffix f x"
  by (auto simp: suffix_Cons)

text \<open>No match starts after the first backtick of a fenced safe text.\<close>

lemma no_later_match:
  assumes safe: "safe x" and x: "x \<noteq> []"
    and suf: "suffix s' (tick # tick # x @ newline # fence)"
  shows "match_here s' = None"
proof (rule ccontr)
  assume "match_here s' \<noteq> None"
  then obtain g where "match_here s' = Some g" by auto
  from match_here_line [OF this] obtain r where
    s': "s' = tick # tick # tick # r" and r: "r \<noteq> []" and q: "quote \<notin> set (same_line r)"
    by (auto simp: fence_ticks)
  from x obtain c x' where xc: "x = c # x'" by (cases x) auto
  with safe have c: "c \<noteq> tick" by (auto dest: safe_head)
  from suffix_fence_cases [OF suf] consider
      "s' = tick # tick # x @ newline # fence" | "s' = tick # x @ newline # fence"
    | "suffix s' (x @ newline # fence)" by blast
  then show False
  proof cases
    case 1
    with s' xc c show ?thesis by simp
  next
    case 2
    with s' xc c show ?thesis by simp
  next
    case 3
    then obtain y0 where
      "suffix s' (newline # fence) \<or> (suffix y0 x \<and> s' = y0 @ newline # fence)"
      by (auto simp: suffix_append)
    then have "suffix s' (newline # fence)
               \<or> (suffix y0 x \<and> s' = y0 @ newline # fence \<and> y0 \<noteq> [])"
      by (cases "y0 = []") auto
    then consider "suffix s' (newline # fence)"
      | y where "suffix y x" "s' = y @ newline # fence" "y \<noteq> []"
      by blast
    then show ?thesis
    proof cases
      case 1
      with s' r show ?thesis
        by (auto simp: suffix_Cons fence_ticks tick_not_newline)
    next
      case 2
      from 2(2) s' 2(3) obtain b where y: "y = tick # b"
        by (cases y) auto
      from 2(1) obtain a where "x = a @ tick # b" by (auto simp: suffix_def y)
      with safe have "quote \<in> set (same_line b)" by (auto simp: safe_def enclosed_def)
      with same_line_append [of b "newline # fence"]
      have "quote \<in> set (same_line (b @ newline # fence))" by blast
      moreover from 2(2) y s' have "b @ newline # fence = tick # tick # r" by simp
      ultimately have "quote \<in> set (same_line (tick # tick # r))" by simp
      with q show ?thesis by (simp add: same_line_Cons tick_not_newline quote_not_tick)
    qed
  qed
qed

lemma first_match_fenced:
  assumes safe: "safe p" and t: "newline \<notin> set tag" "tick \<notin> set tag"
  shows "first_match (fence @ tag @ newline # p @ newline # fence)
           = match_here (fence @ tag @ newline # p @ newline # fence)"
proof -
  let ?x = "tag @ newline # p"
  have "safe (tag @ [newline])" using t by (intro safe_no_tick) (simp add: tick_not_newline)
  from safe_append [OF this safe] have sx: "safe ?x" by simp
  have "first_match (tick # tick # ?x @ newline # fence) = None"
    by (rule first_match_None) (rule no_later_match [OF sx], simp_all)
  then have later: "first_match (tick # tick # tag @ newline # p @ newline # fence) = None"
    by simp
  have "first_match (fence @ tag @ newline # p @ newline # fence)
       = (case match_here (fence @ tag @ newline # p @ newline # fence) of
            Some g \<Rightarrow> Some g
          | None \<Rightarrow> first_match (tick # tick # tag @ newline # p @ newline # fence))"
    unfolding fence_ticks by simp
  with later show ?thesis by (simp split: option.splits)
qed

lemma split_lines_nonempty: "split_lines s \<noteq> []"
  by (induction s) (auto split: list.splits)

lemma split_lines_no_newline: "newline \<notin> set s \<Longrightarrow> split_lines s = [s]"
  by (induction s) auto

lemma split_lines_append:
  "split_lines (a @ newline # b) = split_lines a @ split_lines b"
proof (induction a)
  case Nil
  then show ?case by simp
next
  case (Cons c a)
  obtain l ls where sl: "split_lines a = l # ls"
    using split_lines_nonempty [of a] by (cases "split_lines a") auto
  with Cons show ?case by simp
qed

lemma join_lines_Cons: "join_lines ((c # l) # ls) = c # join_lines (l # ls)"
  by (cases ls) simp_all

lemma join_lines_split_lines: "join_lines (split_lines s) = s"
proof (induction s)
  case Nil
  then show ?case by simp
next
  case (Cons c s)
  obtain l ls where sl: "split_lines s = l # ls"
    using split_lines_nonempty [of s] by (cases "split_lines s") auto
  with Cons show ?case by (simp add: join_lines_Cons)
qed

lemma split_lines_head:
  "split_lines s = l # ls \<Longrightarrow>
     newline \<notin> set l \<and> (if ls = [] then s = l else \<exists>b. s = l @ newline # b \<and> split_lines b = ls)"
proof (induction s arbitrary: l ls)
  case Nil
  then show ?case by simp
next
  case (Cons c s)
  obtain l0 ls0 where sl: "split_lines s = l0 # ls0"
    using split_lines_nonempty [of s] by (cases "split_lines s") auto
  note ih = Cons.IH [OF sl]
  show ?case
  proof (cases "c = newline")
    case True
    with Cons.prems sl show ?thesis by auto
  next
    case False
    with Cons.prems sl have l: "l = c # l0" "ls = ls0" by simp_all
    show ?thesis
    proof (cases "ls0 = []")
      case True
      with ih l False show ?thesis by simp
    next
      case ne: False
      with ih obtain b where "s = l0 @ newline # b" "split_lines b = ls0" by auto
      with ih l False ne show ?thesis by simp
    qed
  qed
qed

text \<open>A line of a text, with what precedes it: the start of the text or a newline.\<close>

lemma split_lines_line:
  "l \<in> set (split_lines s) \<Longrightarrow>
     \<exists>a b. s = a @ l @ b \<and> (a = [] \<or> last a = newline) \<and> newline \<notin> set l"
proof (induction "length (split_lines s)" arbitrary: s rule: less_induct)
  case less
  obtain l0 ls where sl: "split_lines s = l0 # ls"
    using split_lines_nonempty [of s] by (cases "split_lines s") auto
  note hd = split_lines_head [OF sl]
  show ?case
  proof (cases "l = l0")
    case True
    have "\<exists>b. s = l0 @ b"
    proof (cases "ls = []")
      case True
      with hd show ?thesis by simp
    next
      case False
      with hd show ?thesis by auto
    qed
    then obtain b where "s = l0 @ b" by blast
    with True hd show ?thesis by (intro exI [of _ "[]"] exI [of _ b]) simp
  next
    case False
    with less.prems sl have mem: "l \<in> set ls" by simp
    then have "ls \<noteq> []" by auto
    with hd obtain b0 where s: "s = l0 @ newline # b0" and b0: "split_lines b0 = ls" by auto
    from sl b0 have "length (split_lines b0) < length (split_lines s)" by simp
    moreover from mem b0 have "l \<in> set (split_lines b0)" by simp
    ultimately obtain a b where
      ab: "b0 = a @ l @ b" "a = [] \<or> last a = newline" "newline \<notin> set l"
      using less.hyps by blast
    from s ab(1) have "s = (l0 @ newline # a) @ l @ b" by simp
    moreover from ab(2) have "last (l0 @ newline # a) = newline" by auto
    ultimately show ?thesis using ab(3) by blast
  qed
qed

lemma lstrip_split: "\<exists>sp. s = sp @ lstrip s \<and> list_all is_space sp"
  by (rule exI [of _ "takeWhile is_space s"])
     (auto simp: lstrip_def list_all_iff dest: set_takeWhileD)

lemma rstrip_prefix: "prefix (rstrip s) s"
  using rstrip_split [of s] by (auto simp: prefix_def)

lemma strip_head:
  assumes "prefix fence (strip l)"
  shows "\<exists>sp r. l = sp @ tick # r \<and> list_all is_space sp"
proof -
  from assms rstrip_prefix [of "lstrip l"] have "prefix fence (lstrip l)"
    unfolding strip_def by (rule prefix_order.trans)
  then obtain r where r: "lstrip l = tick # r" by (auto simp: prefix_def fence_ticks)
  from lstrip_split [of l] obtain sp where "l = sp @ lstrip l" "list_all is_space sp" by blast
  with r show ?thesis by auto
qed

text \<open>No line of a safe text starts, after leading whitespace, with a backtick.\<close>

lemma safe_line_no_fence:
  assumes safe: "safe p" and l: "l \<in> set (split_lines p)"
  shows "\<not> prefix fence (strip l)"
proof
  assume "prefix fence (strip l)"
  from strip_head [OF this] obtain sp r where
    lr: "l = sp @ tick # r" and sp: "list_all is_space sp" by blast
  from split_lines_line [OF l] obtain a b where
    p: "p = a @ l @ b" and a: "a = [] \<or> last a = newline" and nl: "newline \<notin> set l" by blast
  from p lr have "p = (a @ sp) @ tick # (r @ b)" by simp
  with safe have "quote \<in> set (same_line (rev (a @ sp)))"
    unfolding safe_def enclosed_def by blast
  moreover from nl lr have "newline \<notin> set sp" by simp
  then have "same_line (rev sp @ rev a) = rev sp @ same_line (rev a)"
    by (simp add: same_line_def takeWhile_append)
  moreover from a have "same_line (rev a) = []"
    by (cases a rule: rev_cases) (auto simp: same_line_def)
  ultimately have "quote \<in> set sp" by simp
  with sp quote_not_space show False by (auto simp: list_all_iff)
qed

lemma strip_fence_line:
  assumes "tick \<notin> set tag"
  shows "prefix fence (strip (fence @ tag))"
proof -
  have "lstrip (fence @ tag) = fence @ tag"
    using tick_not_space by (simp add: fence_ticks lstrip_nonspace)
  moreover have "rstrip (fence @ tag) = fence @ rstrip tag"
    by (rule rstrip_append_nonspace) (use tick_not_space in \<open>simp_all add: fence_ticks\<close>)
  ultimately show ?thesis by (simp add: strip_def)
qed

lemma remove_fence_lines_fenced:
  assumes safe: "safe p" and t: "newline \<notin> set tag" "tick \<notin> set tag"
  shows "remove_fence_lines (fence @ tag @ newline # p @ newline # fence) = p"
proof -
  have nf: "newline \<notin> set fence" by (simp add: fence_def newline_def)
  have "split_lines ((fence @ tag) @ newline # (p @ newline # fence))
          = split_lines (fence @ tag) @ split_lines p @ split_lines fence"
    by (simp only: split_lines_append)
  moreover have "split_lines (fence @ tag) = [fence @ tag]"
    using t nf by (intro split_lines_no_newline) simp
  moreover have "split_lines fence = [fence]"
    using nf by (rule split_lines_no_newline)
  ultimately have sl: "split_lines (fence @ tag @ newline # p @ newline # fence)
          = [fence @ tag] @ split_lines p @ [fence]" by simp
  have first: "prefix fence (strip (fence @ tag))" using t(2) by (rule strip_fence_line)
  have last: "prefix fence (strip fence)"
    using strip_fence_line [of "[]"] by simp
  have mid: "filter (\<lambda>line. \<not> prefix fence (strip line)) (split_lines p) = split_lines p"
    using safe_line_no_fence [OF safe] by (simp add: filter_id_conv)
  show ?thesis
    unfolding remove_fence_lines_def sl
    using first last mid by (simp add: join_lines_split_lines)
qed

lemma json_loads_lex:
  assumes "json_loads s = Some v"
  shows "\<exists>ts. lex s = Some ts \<and> ts \<noteq> [] \<and> parse_value [] ts = Some v"
proof -
  from assms obtain ts where ts: "lex s = Some ts" "parse_value [] ts = Some v"
    by (auto simp: json_loads_def split: option.splits)
  moreover from ts(2) have "ts \<noteq> []" by auto
  ultimately show ?thesis by blast
qed

lemma extract_valid:
  assumes "json_loads payload = Some v"
  shows "extract_json_from_response payload context = Inr v"
proof -
  from json_loads_strip [OF assms] have s: "json_loads (strip payload) = Some v" .
  with json_loads_empty have "strip payload \<noteq> []" by auto
  moreover from assms json_loads_empty have "payload \<noteq> []" by auto
  ultimately show ?thesis using s by (simp add: extract_json_from_response_def)
qed

lemma fence_strategy_fenced:
  assumes loads: "json_loads payload = Some v"
    and t: "newline \<notin> set tag" "tick \<notin> set tag"
  shows "fence_strategy (fence @ tag @ newline # payload @ newline # fence) = Some v"
proof -
  let ?text = "fence @ tag @ newline # payload @ newline # fence"
  from json_loads_lex [OF loads] obtain ts where
    ts: "lex payload = Some ts" "ts \<noteq> []" "parse_value [] ts = Some v" by blast
  from ts(1) have safe: "safe payload" by (rule lex_safe)
  from ts(1,2) have ns: "\<exists>c \<in> set payload. \<not> is_space c" by (rule lex_nonspace)
  have c: "contains fence ?text"
    by (rule contains_prefix) (simp_all add: fence_def)
  have fm: "first_match ?text = match_here ?text"
    using safe t by (rule first_match_fenced)
  show ?thesis
  proof (cases "match_here ?text")
    case None
    with c fm remove_fence_lines_fenced [OF safe t] loads show ?thesis
      by (simp add: fence_strategy_def)
  next
    case (Some g)
    from match_here_payload [OF Some t(1) safe ns] obtain j where
      j: "j \<le> length (takeWhile is_space payload)" and g: "g = drop j payload" by blast
    from lex_drop_spaces [OF ts(1) j] ts(3) g have "json_loads g = Some v"
      by (simp add: json_loads_def)
    with c fm Some show ?thesis by (simp add: fence_strategy_def)
  qed
qed

text \<open>
  Claim C4. For every payload that \<open>json.loads\<close> accepts and every tag without newline
  and without backtick (the empty tag included), extracting the payload wrapped in a
  fenced block (three backticks and the tag, a newline, the payload, a newline, three
  backticks) gives the value of the payload, and so does extracting the payload itself.
\<close>

theorem fenced_payload_same_value:
  assumes "json_loads payload = Some v"
    and "newline \<notin> set tag" and "tick \<notin> set tag"
  shows "extract_json_from_response (fence @ tag @ newline # payload @ newline # fence) context
           = Inr v
       \<and> extract_json_from_response payload context = Inr v"
proof -
  let ?text = "fence @ tag @ newline # payload @ newline # fence"
  have "?text = fence @ (tag @ newline # payload @ [newline]) @ fence" by simp
  then have "strip ?text = ?text" by (simp only: strip_fenced)
  moreover have ne: "?text \<noteq> []" by (simp add: fence_def)
  moreover have "json_loads ?text = None"
    using json_loads_tick [of "tick # tick # tag @ newline # payload @ newline # fence"]
    by (simp add: fence_ticks)
  moreover note fence_strategy_fenced [OF assms]
  ultimately have "extract_json_from_response ?text context = Inr v"
    by (simp add: extract_json_from_response_def)
  with extract_valid [OF assms(1)] show ?thesis by simp
qed

theorem fenced_payload_same_value_witness:
  "json_loads ''{\"a\": [1, \"`\"]}'' = Some (JObj [(ustr ''a'', JArr [JInt 1, JStr (ustr ''`'')])])
   \<and> extract_json_from_response
        (fence @ ''json'' @ newline # ''{\"a\": [1, \"`\"]}'' @ newline # fence) ''reply''
       = Inr (JObj [(ustr ''a'', JArr [JInt 1, JStr (ustr ''`'')])])
   \<and> extract_json_from_response (fence @ newline # ''42'' @ newline # fence) ''reply''
       = Inr (JInt 42)
   \<and> extract_json_from_response ''42'' ''reply'' = Inr (JInt 42)"
proof -
  have a: "json_loads ''{\"a\": [1, \"`\"]}''
             = Some (JObj [(ustr ''a'', JArr [JInt 1, JStr (ustr ''`'')])])"
    by code_simp
  have b: "json_loads ''42'' = Some (JInt 42)" by code_simp
  have t1: "newline \<notin> set ''json''" "tick \<notin> set ''json''"
    by (simp_all add: newline_def tick_def)
  have t2: "newline \<notin> set ''''" "tick \<notin> set ''''" by simp_all
  from fenced_payload_same_value [OF a t1, of "''reply''"]
       fenced_payload_same_value [OF b t2, of "''reply''"] a
  show ?thesis by simp
qed

section \<open>Failure isolation in the orchestrator\<close>

lemma files_log_stage [simp]: "files (log_stage s a b c) = files s"
  by (simp add: log_stage_def)

lemma route_entries_log_stage:
  "route_entries (log_stage s stage st iid) =
     route_entries s @ (if stage = ''ROUTE'' then [LogEntry stage st iid] else [])"
  by (simp add: route_entries_def log_stage_def is_route_entry_def)

lemma stats_files_cong: "files s = files t \<Longrightarrow> get_routing_stats s = get_routing_stats t"
  by (simp add: get_routing_stats_def glob_json_def)

lemma untouched_refl: "untouched s s"
  by (simp add: untouched_def)

lemma untouched_trans: "untouched s t \<Longrightarrow> untouched t u \<Longrightarrow> untouched s u"
  by (simp add: untouched_def)

lemma untouched_log_stage: "stage \<noteq> ''ROUTE'' \<Longrightarrow> untouched s (log_stage s stage st iid)"
  by (simp add: untouched_def route_entries_log_stage)

lemma classify_untouched: "untouched s (snd (classify w s content iid))"
  by (auto simp: classify_def log_error_def untouched_log_stage split: sum.splits)

lemma extract_untouched: "untouched s (snd (extractor_extract w s content ct iid))"
  by (auto simp: extractor_extract_def log_error_def untouched_log_stage split: sum.splits)

lemma generate_untouched: "untouched s (snd (generate w s content md ct iid))"
  by (auto simp: generate_def log_error_def untouched_log_stage untouched_refl
           split: sum.splits option.splits)

lemma classify_fst:
  "fst (classify w s content iid) = fst (classify w t content iid)"
  by (simp add: classify_def split: sum.splits)

lemma extract_fst:
  "fst (extractor_extract w s content ct iid) = fst (extractor_extract w t content ct' iid)"
  by (simp add: extractor_extract_def split: sum.splits)

lemma generate_fst:
  "fst (generate w s content md ct iid) = fst (generate w t content md ct' iid)"
  by (simp add: generate_def split: sum.splits option.splits)

lemma untouched_stats: "untouched s s' \<Longrightarrow> get_routing_stats s' = get_routing_stats s"
  by (auto simp: untouched_def intro: stats_files_cong)

lemma stage_generate_fails:
  assumes "fst (generate w s content md ct iid) = Inl e"
  shows "raises_unrouted s (stage_generate w s content iid cls ct md)"
proof -
  obtain r s' where g: "generate w s content md ct iid = (r, s')"
    by (cases "generate w s content md ct iid") auto
  with assms have "r = Inl e" by simp
  with g generate_untouched [of s w content md ct iid] show ?thesis
    by (simp add: stage_generate_def raises_unrouted_def)
qed

lemma stage_extract_fails:
  assumes "(\<exists>e. fst (extractor_extract w s content ct iid) = Inl e)
         \<or> (\<exists>md e. fst (extractor_extract w s content ct iid) = Inr md
                   \<and> fst (generate w sc content md ct' iid) = Inl e)"
  shows "raises_unrouted s (stage_extract w s content iid cls ct)"
proof -
  obtain r s' where x: "extractor_extract w s content ct iid = (r, s')"
    by (cases "extractor_extract w s content ct iid") auto
  from extract_untouched [of s w content ct iid] x have u: "untouched s s'" by simp
  show ?thesis
  proof (cases r)
    case (Inl e)
    with x u show ?thesis by (simp add: stage_extract_def raises_unrouted_def)
  next
    case (Inr md)
    with assms x obtain e where "fst (generate w sc content md ct' iid) = Inl e" by auto
    then have "fst (generate w s' content md ct iid) = Inl e"
      using generate_fst [of w s' content md ct iid sc ct'] by simp
    from stage_generate_fails [OF this, of cls]
    have "raises_unrouted s' (stage_generate w s' content iid cls ct md)" .
    with u have "raises_unrouted s (stage_generate w s' content iid cls ct md)"
      by (auto simp: raises_unrouted_def intro: untouched_trans)
    with x Inr u show ?thesis
      by (auto simp: stage_extract_def raises_unrouted_def split: option.splits)
  qed
qed

lemma stage_classify_fails:
  assumes "(\<exists>e. fst (classify w sa content iid) = Inl e)
         \<or> (\<exists>e. fst (extractor_extract w sb content ct iid) = Inl e)
         \<or> (\<exists>md e. fst (extractor_extract w sb content ct iid) = Inr md
                   \<and> fst (generate w sc content md ct' iid) = Inl e)"
  shows "raises_unrouted s (stage_classify w s content iid)"
proof -
  obtain r s2 where c: "classify w s content iid = (r, s2)"
    by (cases "classify w s content iid") auto
  from classify_untouched [of s w content iid] c have u2: "untouched s s2" by simp
  show ?thesis
  proof (cases r)
    case (Inl e)
    with c u2 show ?thesis by (simp add: stage_classify_def raises_unrouted_def)
  next
    case (Inr cls)
    with c classify_fst [of w s content iid sa]
    have "\<not> (\<exists>e. fst (classify w sa content iid) = Inl e)" by auto
    with assms have rest:
      "\<And>ct2. (\<exists>e. fst (extractor_extract w s2 content ct2 iid) = Inl e)
         \<or> (\<exists>md e. fst (extractor_extract w s2 content ct2 iid) = Inr md
                   \<and> fst (generate w sc content md ct' iid) = Inl e)"
      using extract_fst [of w sb content ct iid s2] by simp
    have "raises_unrouted s2 (stage_extract w s2 content iid cls ct2)" for ct2
      using stage_extract_fails [OF rest] .
    then have "raises_unrouted s (stage_extract w s2 content iid cls ct2)" for ct2
      using u2 by (auto simp: raises_unrouted_def intro: untouched_trans)
    with c Inr u2 show ?thesis
      by (auto simp: stage_classify_def raises_unrouted_def split: sum.splits option.splits)
  qed
qed

text \<open>
  If the classify, the extract or the generate stage of an item raises, then \<open>route\<close>
  is not called (no entry of stage \<open>ROUTE\<close> is logged), the output directories and
  the counts of \<open>get_routing_stats\<close> are unchanged, and \<open>process\<close> returns a result
  with status \<open>failed\<close> unless the text of the exception cannot be printed.
\<close>

lemma stage_failure_never_routes:
  assumes "(\<exists>e. fst (classify w sa content (effective_input_id w input_id_arg)) = Inl e)
         \<or> (\<exists>e. fst (extractor_extract w sb content ct (effective_input_id w input_id_arg)) = Inl e)
         \<or> (\<exists>md e. fst (extractor_extract w sb content ct (effective_input_id w input_id_arg)) = Inr md
                   \<and> fst (generate w sc content md ct' (effective_input_id w input_id_arg)) = Inl e)"
  shows "(fst (process w s content input_id_arg source) = Inl (UnicodeEncodeError, CannotEncode)
          \<or> (\<exists>m. fst (process w s content input_id_arg source)
                    = Inr (Failed (effective_input_id w input_id_arg) m)))
       \<and> files (snd (process w s content input_id_arg source)) = files s
       \<and> route_entries (snd (process w s content input_id_arg source)) = route_entries s
       \<and> get_routing_stats (snd (process w s content input_id_arg source)) = get_routing_stats s"
proof -
  define iid where "iid = effective_input_id w input_id_arg"
  define s1 where "s1 = log_start s iid"
  have u1: "untouched s s1"
    by (simp add: s1_def log_start_def untouched_log_stage)
  from stage_classify_fails [OF assms, of s1]
  obtain e s' where sc: "stage_classify w s1 content iid = (Inl e, s')" and u: "untouched s1 s'"
    by (cases "stage_classify w s1 content iid") (auto simp: raises_unrouted_def iid_def)
  then have p: "process w s content input_id_arg source = (handle_failure iid e, s')"
    by (simp add: process_def Let_def iid_def [symmetric] s1_def [symmetric])
  from u1 u have "untouched s s'" by (rule untouched_trans)
  with p untouched_stats [of s s'] show ?thesis
    by (auto simp: handle_failure_def untouched_def iid_def)
qed

text \<open>
  Claim C1 at a failing input. The reply to the classification request is an object
  whose content type is a string of one lone surrogate. The validation in \<open>classify\<close>
  rejects the value, and \<open>classify\<close> raises with a text that holds it. The \<open>except\<close>
  block of \<open>process\<close> prints that text; the \<open>print\<close> raises \<open>UnicodeEncodeError\<close>, which
  leaves \<open>process\<close>: no result with status \<open>failed\<close> is returned. \<open>route\<close> has not been
  called.
\<close>

theorem unprintable_failure_leaves_process:
  "fst (classify (sample_env\<lparr>classify_reply := Inr surrogate_reply\<rparr>) empty_state
          ''Team A beat Team B 2-1'' ''item_1'')
     = Inl (Exception, Prefixed ''Classification failed: '' (InvalidContentType (JStr [0xD83D])))
   \<and> fst (process (sample_env\<lparr>classify_reply := Inr surrogate_reply\<rparr>) empty_state
            ''Team A beat Team B 2-1'' (Some ''item_1'') None)
     = Inl (UnicodeEncodeError, CannotEncode)
   \<and> route_entries (snd (process (sample_env\<lparr>classify_reply := Inr surrogate_reply\<rparr>) empty_state
            ''Team A beat Team B 2-1'' (Some ''item_1'') None)) = []"
  by code_simp

section \<open>A content type outside the enumeration\<close>

text \<open>
  Claim C2, as stated, fails on the class of the exception: for the content type
  \<open>podcast\<close>, what leaves \<open>classify\<close> is a plain \<open>Exception\<close> whose text starts with
  \<open>Classification failed:\<close>, not the \<open>ValueError\<close> of the validation.
\<close>

theorem invalid_content_type_class_counterexample:
  "fst (classify (sample_env\<lparr>classify_reply :=
            Inr ''{\"content_type\": \"podcast\", \"confidence\": 0.9, \"reasoning\": \"audio\"}''\<rparr>)
          empty_state ''A new episode is out'' ''item_1'')
     = Inl (Exception,
            Prefixed ''Classification failed: '' (InvalidContentType (JStr (ustr ''podcast''))))"
  by code_simp

text \<open>
  Claim C2, amended. For every reply to the classification request that parses to an
  object whose \<open>content_type\<close> is not one of the five valid types, the validation inside
  \<open>classify\<close> raises \<open>ValueError\<close> (for the content type, or for a missing \<open>confidence\<close>
  or \<open>reasoning\<close> key, which is checked first); the value is not replaced by \<open>other\<close>.
  \<open>classify\<close> catches the \<open>ValueError\<close> and raises a plain \<open>Exception\<close> with the prefix
  \<open>Classification failed:\<close> and the same message. \<open>process\<close> returns a result with
  status \<open>failed\<close> and that text, provided the text of the content type holds no
  surrogate.
\<close>

theorem invalid_content_type_fails:
  assumes reply: "classify_reply w = Inr response_text"
    and parsed: "extract_json_from_response response_text
                   (''classification for '' @ effective_input_id w input_id_arg) = Inr (JObj d)"
    and ct: "map_of d (ustr ''content_type'') = Some ct"
    and invalid: "ct \<notin> set (map JStr valid_types)"
  shows "\<exists>m. m = (if \<forall>k \<in> set [ustr ''confidence'', ustr ''reasoning'']. k \<in> set (map fst d)
                   then InvalidContentType ct
                   else MissingKeys ''Classification result''
                          (filter (\<lambda>k. k \<notin> set (map fst d))
                             [ustr ''content_type'', ustr ''confidence'', ustr ''reasoning''])
                          (map fst d))
            \<and> classify_result (classify_reply w) (effective_input_id w input_id_arg)
                = Inl (ValueError, m)
            \<and> fst (classify w s' content (effective_input_id w input_id_arg))
                = Inl (Exception, Prefixed ''Classification failed: '' m)
            \<and> (\<not> str_has_surrogate ct \<longrightarrow>
                 fst (process w s content input_id_arg source)
                   = Inr (Failed (effective_input_id w input_id_arg)
                            (Prefixed ''Classification failed: '' m))
                 \<and> status (Failed (effective_input_id w input_id_arg)
                              (Prefixed ''Classification failed: '' m)) = ''failed'')"
proof -
  define iid where "iid = effective_input_id w input_id_arg"
  let ?req = "[ustr ''content_type'', ustr ''confidence'', ustr ''reasoning'']"
  from ct have present: "ustr ''content_type'' \<in> set (map fst d)"
    by (metis map_of_eq_None_iff option.distinct(1) set_map)
  define m where "m = (if \<forall>k \<in> set [ustr ''confidence'', ustr ''reasoning'']. k \<in> set (map fst d)
                   then InvalidContentType ct
                   else MissingKeys ''Classification result''
                          (filter (\<lambda>k. k \<notin> set (map fst d)) ?req) (map fst d))"
  have r: "classify_result (classify_reply w) iid = Inl (ValueError, m)"
  proof (cases "\<forall>k \<in> set [ustr ''confidence'', ustr ''reasoning'']. k \<in> set (map fst d)")
    case True
    with present have "validate_dict_keys (JObj d) ?req ''Classification result'' = None"
      by (simp add: validate_dict_keys_def)
    with True reply parsed ct invalid show ?thesis
      by (simp add: classify_result_def dict_item_def iid_def m_def)
  next
    case False
    then have "filter (\<lambda>k. k \<notin> set (map fst d)) ?req \<noteq> []"
      by (auto simp: filter_empty_conv)
    then have "validate_dict_keys (JObj d) ?req ''Classification result'' =
                 Some (ValueError, MissingKeys ''Classification result''
                         (filter (\<lambda>k. k \<notin> set (map fst d)) ?req) (map fst d))"
      by (simp add: validate_dict_keys_def Let_def)
    with False reply parsed show ?thesis
      by (simp add: classify_result_def iid_def m_def)
  qed
  from r have c: "\<And>t. classify w t content iid
                  = (Inl (Exception, Prefixed ''Classification failed: '' m), log_error t iid ''CLASSIFY'')"
    by (simp add: classify_def)
  have printable: "\<not> message_has_surrogate (Prefixed ''Classification failed: '' m)"
    if "\<not> str_has_surrogate ct"
    using that by (simp add: m_def)
  from c have "fst (process w s content input_id_arg source)
             = handle_failure iid (Exception, Prefixed ''Classification failed: '' m)"
    by (simp add: process_def stage_classify_def Let_def iid_def [symmetric])
  with printable have "fst (process w s content input_id_arg source)
             = Inr (Failed iid (Prefixed ''Classification failed: '' m))"
    if "\<not> str_has_surrogate ct"
    using that by (simp add: handle_failure_def)
  with r c show ?thesis
    unfolding iid_def m_def by simp
qed

theorem invalid_content_type_fails_witness:
  "classify_reply (sample_env\<lparr>classify_reply :=
       Inr ''{\"content_type\": \"podcast\", \"confidence\": 0.9, \"reasoning\": \"audio\"}''\<rparr>)
     = Inr ''{\"content_type\": \"podcast\", \"confidence\": 0.9, \"reasoning\": \"audio\"}''
   \<and> JStr (ustr ''podcast'') \<notin> set (map JStr valid_types)
   \<and> \<not> str_has_surrogate (JStr (ustr ''podcast''))
   \<and> fst (process (sample_env\<lparr>classify_reply :=
              Inr ''{\"content_type\": \"podcast\", \"confidence\": 0.9, \"reasoning\": \"audio\"}''\<rparr>)
            empty_state ''A new episode is out'' (Some ''item_1'') None)
       = Inr (Failed ''item_1''
           (Prefixed ''Classification failed: '' (InvalidContentType (JStr (ustr ''podcast'')))))"
proof -
  let ?text = "''{\"content_type\": \"podcast\", \"confidence\": 0.9, \"reasoning\": \"audio\"}''"
  let ?w = "sample_env\<lparr>classify_reply := Inr ?text\<rparr>"
  let ?d = "[(ustr ''content_type'', JStr (ustr ''podcast'')),
             (ustr ''confidence'', JFloat (Dec 9 (- 1))),
             (ustr ''reasoning'', JStr (ustr ''audio''))]"
  have reply: "classify_reply ?w = Inr ?text" by simp
  have iid: "effective_input_id ?w (Some ''item_1'') = ''item_1''"
    by (simp add: effective_input_id_def)
  have parsed: "extract_json_from_response ?text
                  (''classification for '' @ effective_input_id ?w (Some ''item_1'')) = Inr (JObj ?d)"
    unfolding iid by code_simp
  have ct: "map_of ?d (ustr ''content_type'') = Some (JStr (ustr ''podcast''))" by simp
  have invalid: "JStr (ustr ''podcast'') \<notin> set (map JStr valid_types)" by code_simp
  have printable: "\<not> str_has_surrogate (JStr (ustr ''podcast''))" by code_simp
  have nomiss: "\<forall>k \<in> set [ustr ''confidence'', ustr ''reasoning'']. k \<in> set (map fst ?d)"
    by simp
  from invalid_content_type_fails [OF reply parsed ct invalid,
         where s = empty_state and content = "''A new episode is out''" and source = None]
    reply invalid iid nomiss printable
  show ?thesis by auto
qed

section \<open>The router and its statistics\<close>

lemma route_success:
  assumes "route w s iid ct content cls md hl = (Inr path, s')"
    and "CHR ''/'' \<notin> set (iid @ ''_'' @ clock_filename w @ ''.json'')"
  shows "\<exists>dir_name entries.
           lookup_dir ct = Inr dir_name \<and> files s dir_name = Some entries \<and> io w = WriteOk
           \<and> path = OUTPUT_DIR @ ''/'' @ dir_name @ ''/'' @ (iid @ ''_'' @ clock_filename w @ ''.json'')
           \<and> files s' = (files s)(dir_name \<mapsto>
                 AList.update (iid @ ''_'' @ clock_filename w @ ''.json'')
                   (Some \<lparr>input_id = iid, processed_at = clock_processed_at w,
                           content_type = ct, classification = cls, metadata = md,
                           headlines = hl, original_content = content,
                           pipeline_version = ''1.0''\<rparr>) entries)"
  using assms
  by (auto simp: route_def write_file_def write_entry_def Let_def log_stage_def log_error_def
           split: sum.splits option.splits io_outcome.splits prod.splits if_splits)

lemma lookup_dir_bucket:
  assumes "lookup_dir ct = Inr dir_name"
  shows "(bucket_type ct, dir_name) \<in> set CONTENT_TYPE_DIRS"
proof (cases ct)
  case (JStr k)
  show ?thesis
  proof (cases "map_of CONTENT_TYPE_DIRS k")
    case None
    then have "k \<notin> set (map fst CONTENT_TYPE_DIRS)"
      by (simp add: map_of_eq_None_iff)
    with None assms JStr show ?thesis
      by (simp add: lookup_dir_def bucket_type_def) (simp add: CONTENT_TYPE_DIRS_def)
  next
    case (Some d)
    then have "(k, d) \<in> set CONTENT_TYPE_DIRS" by (rule map_of_SomeD)
    moreover from this have "k \<in> set (map fst CONTENT_TYPE_DIRS)" by force
    ultimately show ?thesis using Some assms JStr
      by (simp add: lookup_dir_def bucket_type_def)
  qed
qed (use assms in \<open>auto simp: lookup_dir_def bucket_type_def CONTENT_TYPE_DIRS_def\<close>)

lemma table_injective:
  assumes "(t, d) \<in> set CONTENT_TYPE_DIRS" and "(t', d') \<in> set CONTENT_TYPE_DIRS"
  shows "t = t' \<longleftrightarrow> d = d'"
proof -
  have a: "distinct (map fst CONTENT_TYPE_DIRS)"
    by (simp add: CONTENT_TYPE_DIRS_def ustr_def code_def)
  have b: "distinct (map snd CONTENT_TYPE_DIRS)"
    by (simp add: CONTENT_TYPE_DIRS_def)
  from assms a have "t = t' \<Longrightarrow> d = d'"
    by (metis map_of_is_SomeI option.inject)
  moreover from assms b have "d = d' \<Longrightarrow> t = t'"
    by (metis (no_types, lifting) distinct_map eq_key_imp_eq_value inj_on_def fst_conv snd_conv prod.collapse)
  ultimately show ?thesis by blast
qed

lemma glob_json_write:
  assumes "files s dir_name = Some entries"
    and "files s' = (files s)(dir_name \<mapsto> AList.update fn v entries)"
    and "is_json_name fn" and "fn \<notin> set (glob_json s dir_name)"
  shows "glob_json s' d = (if d = dir_name then glob_json s d @ [fn] else glob_json s d)"
proof -
  from assms(1,3,4) have "fn \<notin> set (map fst entries)"
    by (auto simp: glob_json_def)
  then have "map fst (AList.update fn v entries) = map fst entries @ [fn]"
    by (simp add: update_keys)
  with assms(1,2,3) show ?thesis
    by (simp add: glob_json_def)
qed

lemma is_json_name_filename:
  assumes "CHR ''/'' \<notin> set iid" and "CHR ''/'' \<notin> set stamp"
  shows "is_json_name (iid @ ''_'' @ stamp @ ''.json'')"
proof -
  have "suffix ''.json'' ((iid @ ''_'' @ stamp) @ ''.json'')"
    by (rule suffix_appendI) simp
  with assms show ?thesis by (simp add: is_json_name_def)
qed

text \<open>
  Claim C6, as stated, fails for a content type that the table does not have: the
  route succeeds, \<open>get_routing_stats\<close> has no counter for that type before or after, and
  the counter of another type, \<open>other\<close>, goes from 0 to 1.
\<close>

theorem route_unknown_type_counterexample:
  "fst (route sample_env empty_state ''item_1'' (JStr (ustr ''podcast'')) ''text'' JNull JNull JNull)
     = Inr ''outputs/other/item_1_20250101_120000.json''
   \<and> map_of (get_routing_stats empty_state) (ustr ''podcast'') = None
   \<and> map_of (get_routing_stats
        (snd (route sample_env empty_state ''item_1'' (JStr (ustr ''podcast'')) ''text'' JNull JNull JNull)))
        (ustr ''podcast'') = None
   \<and> map_of (get_routing_stats empty_state) (ustr ''other'') = Some 0
   \<and> map_of (get_routing_stats
        (snd (route sample_env empty_state ''item_1'' (JStr (ustr ''podcast'')) ''text'' JNull JNull JNull)))
        (ustr ''other'') = Some 1"
  by code_simp

text \<open>
  Claim C6, amended. For every successful route of a record whose file name is not yet
  in its bucket (and whose input id is a plain name, without path separator), the count
  that \<open>get_routing_stats\<close> gives for the bucket of the content type (the type itself if
  the table has it, \<open>other\<close> if not) is one more than before the route, and every other
  count is unchanged.
\<close>

theorem route_counts_one_more:
  assumes ok: "route w s iid ct content cls md hl = (Inr path, s')"
    and bucket: "lookup_dir ct = Inr bucket_dir"
    and fresh: "iid @ ''_'' @ clock_filename w @ ''.json'' \<notin> set (glob_json s bucket_dir)"
    and plain: "CHR ''/'' \<notin> set iid" "CHR ''/'' \<notin> set (clock_filename w)"
  shows "get_routing_stats s' =
           map (\<lambda>(t, n). (t, if t = bucket_type ct then n + 1 else n)) (get_routing_stats s)"
proof -
  let ?fn = "iid @ ''_'' @ clock_filename w @ ''.json''"
  from plain have "CHR ''/'' \<notin> set (iid @ ''_'' @ clock_filename w @ ''.json'')" by simp
  from route_success [OF ok this] obtain dir_name entries v where
    dir: "lookup_dir ct = Inr dir_name" and ent: "files s dir_name = Some entries"
    and upd: "files s' = (files s)(dir_name \<mapsto> AList.update ?fn v entries)"
    by blast
  from fresh dir bucket have fr: "?fn \<notin> set (glob_json s dir_name)" by simp
  note g = glob_json_write [OF ent upd is_json_name_filename [OF plain] fr]
  from lookup_dir_bucket [OF dir] have b: "(bucket_type ct, dir_name) \<in> set CONTENT_TYPE_DIRS" .
  have "(case x of (t, d) \<Rightarrow> (t, length (glob_json s' d))) =
        (case (case x of (t, d) \<Rightarrow> (t, length (glob_json s d))) of
           (t, n) \<Rightarrow> (t, if t = bucket_type ct then n + 1 else n))"
    if "x \<in> set CONTENT_TYPE_DIRS" for x
  proof -
    obtain t d where x: "x = (t, d)" by (cases x)
    with that table_injective [OF _ b, of t d] have "t = bucket_type ct \<longleftrightarrow> d = dir_name" by simp
    with x g [of d] show ?thesis by simp
  qed
  then show ?thesis
    by (simp add: get_routing_stats_def)
qed

theorem route_counts_one_more_witness:
  "lookup_dir (JStr (ustr ''match_report'')) = Inr ''match_reports''
   \<and> ''item_1'' @ ''_'' @ clock_filename sample_env @ ''.json''
       \<notin> set (glob_json empty_state ''match_reports'')
   \<and> CHR ''/'' \<notin> set ''item_1'' \<and> CHR ''/'' \<notin> set (clock_filename sample_env)
   \<and> fst (route sample_env empty_state ''item_1'' (JStr (ustr ''match_report'')) ''text'' JNull JNull JNull)
       = Inr ''outputs/match_reports/item_1_20250101_120000.json''
   \<and> get_routing_stats
        (snd (route sample_env empty_state ''item_1'' (JStr (ustr ''match_report'')) ''text'' JNull JNull JNull))
       = [(ustr ''match_report'', 1), (ustr ''transfer_news'', 0), (ustr ''injury_update'', 0),
          (ustr ''opinion_piece'', 0), (ustr ''other'', 0)]"
proof -
  let ?r = "route sample_env empty_state ''item_1'' (JStr (ustr ''match_report'')) ''text'' JNull JNull JNull"
  have f: "fst ?r = Inr ''outputs/match_reports/item_1_20250101_120000.json''" by code_simp
  then have ok: "?r = (Inr ''outputs/match_reports/item_1_20250101_120000.json'', snd ?r)"
    by (metis prod.collapse)
  have bucket: "lookup_dir (JStr (ustr ''match_report'')) = Inr ''match_reports''" by code_simp
  have fresh: "''item_1'' @ ''_'' @ clock_filename sample_env @ ''.json''
                 \<notin> set (glob_json empty_state ''match_reports'')" by code_simp
  have plain: "CHR ''/'' \<notin> set ''item_1''" "CHR ''/'' \<notin> set (clock_filename sample_env)"
    by code_simp+
  have before: "map (\<lambda>(t, n). (t, if t = bucket_type (JStr (ustr ''match_report'')) then n + 1 else n))
                  (get_routing_stats empty_state)
                = [(ustr ''match_report'', 1), (ustr ''transfer_news'', 0), (ustr ''injury_update'', 0),
                   (ustr ''opinion_piece'', 0), (ustr ''other'', 0)]" by code_simp
  from route_counts_one_more [OF ok bucket fresh plain] before f bucket fresh plain
  show ?thesis by simp
qed

text \<open>
  Claim C7 at a failing input. Two routes of records with the same input id and the
  unknown content type \<open>podcast\<close> within one second of the clock get the same file
  name. Both succeed and return the same path in the bucket \<open>other\<close>; the second replaces
  the file of the first, and the count of \<open>other\<close> is 1 after the first and still 1 after
  the second.
\<close>

theorem route_same_name_replaces:
  "fst (route sample_env empty_state ''item_1'' (JStr (ustr ''podcast'')) ''first text'' JNull JNull JNull)
     = Inr ''outputs/other/item_1_20250101_120000.json''
   \<and> fst (route sample_env
          (snd (route sample_env empty_state ''item_1'' (JStr (ustr ''podcast'')) ''first text'' JNull JNull JNull))
          ''item_1'' (JStr (ustr ''podcast'')) ''second text'' JNull JNull JNull)
     = Inr ''outputs/other/item_1_20250101_120000.json''
   \<and> map_of (get_routing_stats
        (snd (route sample_env empty_state ''item_1'' (JStr (ustr ''podcast'')) ''first text'' JNull JNull JNull)))
        (ustr ''other'') = Some 1
   \<and> map_of (get_routing_stats
        (snd (route sample_env
           (snd (route sample_env empty_state ''item_1'' (JStr (ustr ''podcast'')) ''first text'' JNull JNull JNull))
           ''item_1'' (JStr (ustr ''podcast'')) ''second text'' JNull JNull JNull)))
        (ustr ''other'') = Some 1
   \<and> map (\<lambda>(n, p). (n, map_option original_content p))
        (case files (snd (route sample_env
           (snd (route sample_env empty_state ''item_1'' (JStr (ustr ''podcast'')) ''first text'' JNull JNull JNull))
           ''item_1'' (JStr (ustr ''podcast'')) ''second text'' JNull JNull JNull)) ''other'' of
           Some entries \<Rightarrow> entries | None \<Rightarrow> [])
     = [(''item_1_20250101_120000.json'', Some ''second text'')]"
  by code_simp

lemma files_router_init:
  "files (router_init s) d =
     (if d \<in> set (map snd CONTENT_TYPE_DIRS) \<and> files s d = None then Some [] else files s d)"
  by (simp add: router_init_def CONTENT_TYPE_DIRS_def)

lemma glob_json_router_init: "glob_json (router_init s) d = glob_json s d"
  by (simp add: glob_json_def files_router_init)

lemma stats_lookup:
  assumes "(t, d) \<in> set CONTENT_TYPE_DIRS"
  shows "map_of (get_routing_stats s) t = Some (length (glob_json s d))"
proof -
  have "distinct (map fst CONTENT_TYPE_DIRS)"
    by (simp add: CONTENT_TYPE_DIRS_def ustr_def code_def)
  with assms have "map_of CONTENT_TYPE_DIRS t = Some d" by simp
  moreover have "get_routing_stats s = map (\<lambda>(t, d). (t, length (glob_json s d))) CONTENT_TYPE_DIRS"
    by (simp add: get_routing_stats_def)
  ultimately show ?thesis
    by (simp add: map_of_map)
qed

lemma glob_json_card:
  assumes "files s d = Some entries" and "distinct (map fst entries)"
  shows "length (glob_json s d) = card {n \<in> fst ` set entries. is_json_name n}"
proof -
  from assms have "distinct (glob_json s d)" by (simp add: glob_json_def)
  then have "length (glob_json s d) = card (set (glob_json s d))"
    by (simp add: distinct_card)
  also from assms(1) have "set (glob_json s d) = {n \<in> fst ` set entries. is_json_name n}"
    by (auto simp: glob_json_def)
  finally show ?thesis .
qed

text \<open>
  Claim C10. \<open>get_routing_stats\<close> is computed from the output directories alone: for
  every state it lists the five known content types, each with the number of \<open>.json\<close>
  files in the directory of its bucket; it gives the same counts in any two states with
  the same directories (whatever else happened in the process), and constructing a
  router, which only creates missing directories, leaves the counts as they are.
\<close>

theorem routing_stats_count_files:
  "map fst (get_routing_stats s) = valid_types
   \<and> (\<forall>(t, d) \<in> set CONTENT_TYPE_DIRS.
         map_of (get_routing_stats s) t = Some (length (glob_json s d)))
   \<and> (\<forall>d entries. files s d = Some entries \<longrightarrow> distinct (map fst entries) \<longrightarrow>
         length (glob_json s d) = card {n \<in> fst ` set entries. is_json_name n})
   \<and> get_routing_stats (router_init s) = get_routing_stats s
   \<and> (\<forall>s'. files s' = files s \<longrightarrow> get_routing_stats s' = get_routing_stats s)"
proof (intro conjI)
  show "map fst (get_routing_stats s) = valid_types"
    by (simp add: get_routing_stats_def CONTENT_TYPE_DIRS_def valid_types_def)
  show "\<forall>(t, d) \<in> set CONTENT_TYPE_DIRS.
         map_of (get_routing_stats s) t = Some (length (glob_json s d))"
    using stats_lookup by blast
  show "\<forall>d entries. files s d = Some entries \<longrightarrow> distinct (map fst entries) \<longrightarrow>
         length (glob_json s d) = card {n \<in> fst ` set entries. is_json_name n}"
    using glob_json_card by blast
  show "get_routing_stats (router_init s) = get_routing_stats s"
    by (simp add: get_routing_stats_def glob_json_router_init)
  show "\<forall>s'. files s' = files s \<longrightarrow> get_routing_stats s' = get_routing_stats s"
    by (simp add: get_routing_stats_def glob_json_def)
qed

theorem routing_stats_count_files_witness:
  "(ustr ''match_report'', ''match_reports'') \<in> set CONTENT_TYPE_DIRS
   \<and> map_of (get_routing_stats
        (snd (route sample_env empty_state ''item_1'' (JStr (ustr ''match_report'')) ''text'' JNull JNull JNull)))
        (ustr ''match_report'')
       = Some (length (glob_json
           (snd (route sample_env empty_state ''item_1'' (JStr (ustr ''match_report'')) ''text'' JNull JNull JNull))
           ''match_reports''))
   \<and> glob_json
        (snd (route sample_env empty_state ''item_1'' (JStr (ustr ''match_report'')) ''text'' JNull JNull JNull))
        ''match_reports'' = [''item_1_20250101_120000.json'']
   \<and> get_routing_stats (router_init
        (snd (route sample_env empty_state ''item_1'' (JStr (ustr ''match_report'')) ''text'' JNull JNull JNull)))
       = get_routing_stats
           (snd (route sample_env empty_state ''item_1'' (JStr (ustr ''match_report'')) ''text'' JNull JNull JNull))"
proof -
  let ?s = "snd (route sample_env empty_state ''item_1'' (JStr (ustr ''match_report'')) ''text'' JNull JNull JNull)"
  have m: "(ustr ''match_report'', ''match_reports'') \<in> set CONTENT_TYPE_DIRS"
    by (simp add: CONTENT_TYPE_DIRS_def)
  have g: "glob_json ?s ''match_reports'' = [''item_1_20250101_120000.json'']" by code_simp
  from routing_stats_count_files [of ?s] m g show ?thesis by fastforce
qed

section \<open>Batch processing\<close>











text \<open>
  An exception that leaves \<open>process\<close> leaves \<open>process_batch\<close>: with the reply of the
  lone surrogate for the first of two items, nothing is returned and the second item is
  never routed.
\<close>

lemma unprintable_failure_aborts_batch:
  "fst (process_batch
          (\<lambda>i. if i = 0 then sample_env\<lparr>classify_reply := Inr surrogate_reply\<rparr> else sample_env)
          empty_state
          [\<lparr>item_content = ''first'', item_input_id = Some ''item_1'', item_source = None\<rparr>,
           \<lparr>item_content = ''second'', item_input_id = Some ''item_2'', item_source = None\<rparr>])
     = Inl (UnicodeEncodeError, CannotEncode)
   \<and> route_entries (snd (process_batch
          (\<lambda>i. if i = 0 then sample_env\<lparr>classify_reply := Inr surrogate_reply\<rparr> else sample_env)
          empty_state
          [\<lparr>item_content = ''first'', item_input_id = Some ''item_1'', item_source = None\<rparr>,
           \<lparr>item_content = ''second'', item_input_id = Some ''item_2'', item_source = None\<rparr>]))
     = []"
  by code_simp




end
